theory Spec2Isabelle
  imports Main "HOL-Library.Sublist"
begin

section \<open>Strings of the host language\<close>

text \<open>
  The router of \<^verbatim>\<open>src/extra/http.ts\<close> works on JavaScript strings. They are modelled as
  \<^typ>\<open>string\<close>; the model is exact for strings of ASCII characters, which is where all
  the characters the router looks for (\<open>/\<close>, \<open>?\<close>, \<open>:\<close>, \<open>&\<close>, \<open>=\<close>, \<open>+\<close>, \<open>#\<close>) live.
\<close>

text \<open>
  \<^verbatim>\<open>s.replace(pat, rep)\<close> with a string pattern: the leftmost occurrence of \<open>pat\<close> is
  replaced, an empty pattern matches at position 0, a string without an occurrence is
  returned unchanged. None of the replacement strings of the source contains \<open>$\<close>.
\<close>

fun replace_first :: "string \<Rightarrow> string \<Rightarrow> string \<Rightarrow> string" where
  "replace_first pat rep [] = (if pat = [] then rep else [])"
| "replace_first pat rep (c # cs) =
     (if prefix pat (c # cs) then rep @ drop (length pat) (c # cs)
      else c # replace_first pat rep cs)"

text \<open>\<^verbatim>\<open>s.replace(new RegExp('[/]*$'), '')\<close>: every trailing slash goes.\<close>

definition strip_trailing_slashes :: "string \<Rightarrow> string" where
  "strip_trailing_slashes s = rev (dropWhile (\<lambda>c. c = CHR ''/'') (rev s))"

text \<open>\<^verbatim>\<open>s.replace(new RegExp('^[/]*'), '')\<close>: every leading slash goes.\<close>

definition strip_leading_slashes :: "string \<Rightarrow> string" where
  "strip_leading_slashes s = dropWhile (\<lambda>c. c = CHR ''/'') s"

text \<open>\<^verbatim>\<open>s.split(d)\<close> for a one-character separator; the result is never empty.\<close>

fun split_on :: "char \<Rightarrow> string \<Rightarrow> string list" where
  "split_on d [] = [[]]"
| "split_on d (c # cs) =
     (if c = d then [] # split_on d cs
      else (case split_on d cs of
              [] \<Rightarrow> [[c]]
            | x # xs \<Rightarrow> (c # x) # xs))"

text \<open>\<^verbatim>\<open>parts.join(d)\<close>.\<close>

fun join_with :: "string \<Rightarrow> string list \<Rightarrow> string" where
  "join_with d [] = []"
| "join_with d [x] = x"
| "join_with d (x # y # ys) = x @ d @ join_with d (y # ys)"

text \<open>\<^verbatim>\<open>s.split('/').filter(Boolean)\<close>: the non-empty segments of a path.\<close>

definition segments :: "string \<Rightarrow> string list" where
  "segments p = filter (\<lambda>x. x \<noteq> []) (split_on (CHR ''/'') p)"

section \<open>Regular expressions\<close>

text \<open>
  The router builds its route patterns as text and hands them to the engine of the host
  (\<^verbatim>\<open>new RegExp('^' + regex + '$', 'i')\<close>). The engine is modelled for the patterns
  built from the following pieces, always anchored at both ends and ignoring case:
  a character that is not a syntax character of the pattern language stands for itself,
  \<open>.\<close> for any character but a line terminator, the group \<open>([^/]+)\<close> for one or more
  characters other than \<open>/\<close>, and \<open>*\<close> or \<open>+\<close> after a single character or \<open>.\<close> repeat
  it. For every other pattern \<open>regexp_new\<close> is \<open>None\<close>: the pattern is outside the model
  (or the engine rejects it).
\<close>

datatype atom = Lit char | Dot | NotSlash

datatype quant = Once | Star | Plus

type_synonym regex = "(atom \<times> quant) list"

definition lower_letters :: string where
  "lower_letters = ''abcdefghijklmnopqrstuvwxyz''"

definition upper_letters :: string where
  "upper_letters = ''ABCDEFGHIJKLMNOPQRSTUVWXYZ''"

text \<open>The character class \<open>[a-zA-Z]\<close>.\<close>

definition is_alpha :: "char \<Rightarrow> bool" where
  "is_alpha c = (c \<in> set lower_letters \<or> c \<in> set upper_letters)"

text \<open>The canonical form of a character under the \<open>i\<close> flag.\<close>

definition upper :: "char \<Rightarrow> char" where
  "upper c = (case map_of (zip lower_letters upper_letters) c of None \<Rightarrow> c | Some u \<Rightarrow> u)"

text \<open>The syntax characters of the pattern language: \<open>\\ ^ $ . * + ? ( ) [ ] { } |\<close>.\<close>

definition syntax_chars :: string where
  "syntax_chars = CHR 0x5C # ''^$.*+?()[]{}|''"

fun atom_ok :: "atom \<Rightarrow> char \<Rightarrow> bool" where
  "atom_ok (Lit a) c = (upper a = upper c)"
| "atom_ok Dot c = (c \<noteq> CHR 0x0A \<and> c \<noteq> CHR 0x0D)"
| "atom_ok NotSlash c = (c \<noteq> CHR ''/'')"

text \<open>Whether the whole string is matched (the patterns are anchored at both ends).\<close>

fun matches :: "regex \<Rightarrow> string \<Rightarrow> bool" where
  "matches [] s = (s = [])"
| "matches ((a, Once) # r) [] = False"
| "matches ((a, Once) # r) (c # cs) = (atom_ok a c \<and> matches r cs)"
| "matches ((a, Star) # r) [] = matches r []"
| "matches ((a, Star) # r) (c # cs) =
     (matches r (c # cs) \<or> (atom_ok a c \<and> matches ((a, Star) # r) cs))"
| "matches ((a, Plus) # r) [] = False"
| "matches ((a, Plus) # r) (c # cs) = (atom_ok a c \<and> matches ((a, Star) # r) cs)"

fun quantifier :: "string \<Rightarrow> quant \<times> string" where
  "quantifier [] = (Once, [])"
| "quantifier (c # cs) =
     (if c = CHR ''*'' then (Star, cs)
      else if c = CHR ''+'' then (Plus, cs)
      else (Once, c # cs))"

lemma length_quantifier: "length (snd (quantifier s)) \<le> length s"
  by (cases s) auto

function parse_items :: "string \<Rightarrow> regex option" where
  "parse_items [] = Some []"
| "parse_items (c # cs) =
     (if prefix ''([^/]+)'' (c # cs) then
        (let qr = quantifier (drop 7 (c # cs)) in
         if fst qr = Once then map_option ((#) (NotSlash, Plus)) (parse_items (snd qr))
         else None)
      else if c = CHR ''.'' then
        (let qr = quantifier cs in map_option ((#) (Dot, fst qr)) (parse_items (snd qr)))
      else if c \<in> set syntax_chars then None
      else
        (let qr = quantifier cs in map_option ((#) (Lit c, fst qr)) (parse_items (snd qr))))"
  by pat_completeness auto
termination
proof (relation "measure length")
  show "wf (measure length)" by simp
next
  fix c cs qr
  assume "qr = quantifier (drop 7 (c # cs))"
  then have "length (snd qr) \<le> length (drop 6 cs)"
    using length_quantifier [of "drop 6 cs"] by simp
  then show "(snd qr, c # cs) \<in> measure length" by simp
next
  fix c cs qr
  assume "qr = quantifier cs"
  then have "length (snd qr) \<le> length cs" using length_quantifier by simp
  then show "(snd qr, c # cs) \<in> measure length" by simp
next
  fix c cs qr
  assume "qr = quantifier cs"
  then have "length (snd qr) \<le> length cs" using length_quantifier by simp
  then show "(snd qr, c # cs) \<in> measure length" by simp
qed

text \<open>\<^verbatim>\<open>new RegExp(src, 'i')\<close> for a source text of the shape \<open>^...$\<close>.\<close>

definition regexp_new :: "string \<Rightarrow> regex option" where
  "regexp_new src =
     (case src of
        [] \<Rightarrow> None
      | c # cs \<Rightarrow>
          if c = CHR ''^'' \<and> cs \<noteq> [] \<and> last cs = CHR ''$'' then parse_items (butlast cs)
          else None)"

text \<open>\<^verbatim>\<open>url.match(re)\<close> read as a truth value.\<close>

definition regex_test :: "regex \<Rightarrow> string \<Rightarrow> bool" where
  "regex_test re url = matches re url"

section \<open>Routes, transitions and the router's state\<close>

text \<open>The exported \<^verbatim>\<open>options\<close> object.\<close>

record options =
  mode :: string
  base :: string
  prevent :: bool

text \<open>
  A route object. \<open>query\<close> and \<open>params\<close> are the fields \<^verbatim>\<open>_query\<close> and \<^verbatim>\<open>_params\<close>; a
  query value is \<open>None\<close> for \<^verbatim>\<open>null\<close>. A route definition is taken as its \<^verbatim>\<open>path\<close>; the
  other fields a definition may carry are not looked at by the router.
\<close>

record route =
  path :: string
  regex :: regex
  query :: "string \<rightharpoonup> string option"
  params :: "string \<rightharpoonup> string"

text \<open>
  Route objects are shared between \<^verbatim>\<open>_routes\<close>, \<^verbatim>\<open>_active\<close> and the transition, and the
  commit writes into them. The table \<open>routes\<close> is their store and a reference is an index
  into it (routes are appended, never removed). \<^verbatim>\<open>_active\<close> starts as the abstract
  route and is \<^verbatim>\<open>null\<close> after a navigation that matched nothing. In a transition,
  \<open>next\<close> is \<open>None\<close> for \<^verbatim>\<open>null\<close>; an index outside the table stands for a value that is
  no route (a hook can assign one).
\<close>

datatype route_ref = AbstractRoute | NoRoute | RouteAt nat

record transition =
  previous :: route_ref
  "next" :: "nat option"
  location :: string
  replace :: bool

text \<open>
  What can be thrown: \<^verbatim>\<open>decodeURIComponent\<close> throws URIError, reading the path of a value
  that is no route throws TypeError, writing the URL may throw, and a hook may throw
  anything.
\<close>

datatype error = URIError | TypeError | WriteError | Thrown string

text \<open>
  \<open>log\<close> records, in order, what happens in the router. \<open>Called f t t' r\<close>: the hook \<open>f\<close>
  was called with the transition object in state \<open>t\<close>, left it in state \<open>t'\<close> and ended
  with \<open>r\<close> (\<open>None\<close>: it returned, \<open>Some e\<close>: it threw or rejected with \<open>e\<close>).
  \<open>PreventSet b\<close>: the router assigned \<open>b\<close> to \<^verbatim>\<open>options.prevent\<close>. \<open>PushState l p\<close> and
  \<open>HashSet l p\<close>: the URL \<open>l\<close> was written, with \<^verbatim>\<open>history.pushState\<close> or through
  \<^verbatim>\<open>window.location.hash\<close>, while \<^verbatim>\<open>options.prevent\<close> was \<open>p\<close>. \<open>Activated r\<close>: \<open>r\<close> was
  assigned to \<^verbatim>\<open>_active\<close>. \<open>Warned e\<close>: \<^verbatim>\<open>console.warn\<close> was called with \<open>e\<close>.
\<close>

datatype event =
    Called nat transition transition "error option"
  | PreventSet bool
  | PushState string bool
  | HashSet string bool
  | Activated route_ref
  | Warned error

text \<open>
  A hook is a function object; it is modelled by its identity (a number). The fields
  \<open>before_hooks\<close> and \<open>after_hooks\<close> are the arrays \<^verbatim>\<open>_before\<close> and \<^verbatim>\<open>_after\<close>; \<open>world\<close> is
  the state of the application outside the router.
\<close>

record 'w router =
  routes :: "route list"
  before_hooks :: "nat list"
  after_hooks :: "nat list"
  active :: route_ref
  options :: options
  world :: 'w
  log :: "event list"

section \<open>The host environment\<close>

text \<open>
  What the browser and the application provide is a parameter of the model: the origin
  of the page (\<^verbatim>\<open>window.location.origin\<close>), \<^verbatim>\<open>decodeURIComponent\<close> (\<open>None\<close> when it
  throws URIError), the names every plain object inherits from \<^verbatim>\<open>Object.prototype\<close>,
  whether writing the browser URL throws (given the mode and the location), and what the
  hooks do.

  A hook is called as \<^verbatim>\<open>callback.apply(change)\<close>: it has the transition object as
  \<^verbatim>\<open>this\<close> and may assign to its fields; it also sees the exported \<^verbatim>\<open>options\<close> and may
  assign to them. \<open>call h f t s\<close> is what the hook \<open>f\<close> does when called with the
  transition \<open>t\<close> in the state \<open>s\<close>: whether it throws (or the promise it returns
  rejects), and how it leaves the transition object, the options and the application.
  What a failing hook assigned before it failed stays assigned. A hook that calls back
  into the router (\<^verbatim>\<open>add\<close>, \<^verbatim>\<open>afterChange\<close>, \<^verbatim>\<open>redirect\<close>, ...) and a hook whose promise
  never settles are outside the model.
\<close>

record 'w effect =
  thrown :: "error option"
  this_left :: transition
  options_left :: options
  world_left :: 'w

record 'w host =
  origin :: string
  decodeURIComponent :: "string \<Rightarrow> string option"
  inherited :: "string list"
  write_throws :: "string \<Rightarrow> string \<Rightarrow> bool"
  call :: "nat \<Rightarrow> transition \<Rightarrow> 'w router \<Rightarrow> 'w effect"

section \<open>Path normalisation\<close>

definition normalizePath :: "'w host \<Rightarrow> options \<Rightarrow> string \<Rightarrow> bool \<Rightarrow> string" where
  "normalizePath h opts p removeQuery =
     (let p1 = replace_first (origin h) [] p;
          p2 = replace_first (base opts) [] p1;
          p3 = replace_first ''/?'' ''?'' p2;
          p4 = strip_trailing_slashes p3;
          p5 = strip_leading_slashes p4;
          p6 = replace_first ''//'' ''/'' (CHR ''/'' # p5)
      in if removeQuery
         then (case split_on (CHR ''?'') p6 of [] \<Rightarrow> [] | x # _ \<Rightarrow> x)
         else p6)"

section \<open>Parameters and query of a location\<close>

text \<open>
  \<^verbatim>\<open>obj[key] === undefined\<close> on an object created by \<open>{}\<close>: the key is neither an own
  property nor inherited (\<^verbatim>\<open>__proto__\<close> always is). \<^verbatim>\<open>obj[key] = v\<close> creates or overwrites
  an own property, except for \<^verbatim>\<open>__proto__\<close>, where a string is ignored.
\<close>

definition is_undefined :: "'w host \<Rightarrow> (string \<rightharpoonup> 'v) \<Rightarrow> string \<Rightarrow> bool" where
  "is_undefined h obj key =
     (obj key = None \<and> key \<noteq> ''__proto__'' \<and> key \<notin> set (inherited h))"

definition assign :: "(string \<rightharpoonup> 'v) \<Rightarrow> string \<Rightarrow> 'v \<Rightarrow> (string \<rightharpoonup> 'v)" where
  "assign obj key v = (if key = ''__proto__'' then obj else obj(key \<mapsto> v))"

text \<open>
  The loop of \<^verbatim>\<open>paramsFor\<close>: \<open>parts\<close> are the segments of the template, the second list
  the segments of the location from the current index on.
\<close>

fun params_loop ::
  "'w host \<Rightarrow> string list \<Rightarrow> string list \<Rightarrow> (string \<rightharpoonup> string) \<Rightarrow> (string \<rightharpoonup> string) option"
where
  "params_loop h parts [] acc = Some acc"
| "params_loop h [] (v # vs) acc = Some acc"
| "params_loop h (p # ps) (v # vs) acc =
     (if take 1 p = '':'' then
        (case decodeURIComponent h v of
           None \<Rightarrow> None
         | Some d \<Rightarrow> params_loop h ps vs (assign acc (drop 1 p) d))
      else params_loop h ps vs acc)"

definition paramsFor ::
  "'w host \<Rightarrow> options \<Rightarrow> string \<Rightarrow> route \<Rightarrow> (string \<rightharpoonup> string) option"
where
  "paramsFor h opts p m =
     (let parts = segments (normalizePath h opts (path m) True);
          url = segments (normalizePath h opts p True)
      in params_loop h parts url Map.empty)"

definition is_space :: "char \<Rightarrow> bool" where
  "is_space c = (c \<in> set [CHR 0x09, CHR 0x0A, CHR 0x0B, CHR 0x0C, CHR 0x0D, CHR 0x20])"

text \<open>\<^verbatim>\<open>s.trim()\<close>.\<close>

definition js_trim :: "string \<Rightarrow> string" where
  "js_trim s = rev (dropWhile is_space (rev (dropWhile is_space s)))"

text \<open>\<^verbatim>\<open>s.replace(/^(\?|#|&)/, '')\<close>.\<close>

definition strip_query_mark :: "string \<Rightarrow> string" where
  "strip_query_mark s =
     (case s of
        [] \<Rightarrow> []
      | c # cs \<Rightarrow> if c = CHR ''?'' \<or> c = CHR ''#'' \<or> c = CHR ''&'' then cs else s)"

text \<open>\<^verbatim>\<open>s.replace(/\+/g, ' ')\<close>.\<close>

definition plus_to_space :: "string \<Rightarrow> string" where
  "plus_to_space s = map (\<lambda>c. if c = CHR ''+'' then CHR '' '' else c) s"

text \<open>
  The \<^verbatim>\<open>forEach\<close> of \<^verbatim>\<open>queryFor\<close> over the pieces between \<open>&\<close>; \<open>None\<close> when
  \<^verbatim>\<open>decodeURIComponent\<close> throws. (\<^verbatim>\<open>split\<close> never returns an empty array, so the first
  branch is never taken.)
\<close>

fun query_loop ::
  "'w host \<Rightarrow> string list \<Rightarrow> (string \<rightharpoonup> string option) \<Rightarrow> (string \<rightharpoonup> string option) option"
where
  "query_loop h [] q = Some q"
| "query_loop h (param # rest) q =
     (case split_on (CHR ''='') (plus_to_space param) of
        [] \<Rightarrow> None
      | k # vs \<Rightarrow>
          (case decodeURIComponent h k of
             None \<Rightarrow> None
           | Some key \<Rightarrow>
               (case (if vs \<noteq> [] then map_option Some (decodeURIComponent h (join_with ''='' vs))
                      else Some None) of
                  None \<Rightarrow> None
                | Some v \<Rightarrow>
                    query_loop h rest (if is_undefined h q key then q(key \<mapsto> v) else q))))"

definition queryFor :: "'w host \<Rightarrow> string \<Rightarrow> (string \<rightharpoonup> string option) option" where
  "queryFor h loc =
     (let search0 =
            (if CHR ''?'' \<in> set loc
             then (case split_on (CHR ''?'') loc of _ # x # _ \<Rightarrow> x | _ \<Rightarrow> ''undefined'')
             else []);
          search = strip_query_mark (js_trim search0)
      in if search = [] then Some Map.empty
         else query_loop h (split_on (CHR ''&'') search) Map.empty)"

section \<open>Registration and matching\<close>

text \<open>
  \<^verbatim>\<open>regex.replace(new RegExp('(:[a-zA-Z]+)', 'g'), '([^\/]+)')\<close>: from left to right, every
  \<open>:\<close> followed by letters is replaced, with all the letters that follow it.
\<close>

function replace_params :: "string \<Rightarrow> string" where
  "replace_params [] = []"
| "replace_params (c # cs) =
     (if c = CHR '':'' \<and> takeWhile is_alpha cs \<noteq> []
      then ''([^/]+)'' @ replace_params (dropWhile is_alpha cs)
      else c # replace_params cs)"
  by pat_completeness auto
termination
  by (relation "measure length") (auto simp: length_dropWhile_le less_Suc_eq_le)

text \<open>
  \<open>add\<close> is \<open>None\<close> where the pattern it builds is outside the modelled patterns.
\<close>

definition add :: "'w host \<Rightarrow> string \<Rightarrow> 'w router \<Rightarrow> 'w router option" where
  "add h p s =
     (let rpath = normalizePath h (options s) p True;
          src = ''^'' @ replace_params rpath @ ''$''
      in case regexp_new src of
           None \<Rightarrow> None
         | Some re \<Rightarrow>
             Some (s\<lparr>routes := routes s @
                        [\<lparr>path = rpath, regex = re, query = Map.empty, params = Map.empty\<rparr>]\<rparr>))"

text \<open>The loop of \<^verbatim>\<open>match\<close>, from index \<open>i\<close> on; the result is the index found.\<close>

fun match_from :: "route list \<Rightarrow> string \<Rightarrow> nat \<Rightarrow> nat option" where
  "match_from [] url i = None"
| "match_from (r # rs) url i =
     (if regex_test (regex r) url then Some i else match_from rs url (Suc i))"

definition match :: "'w host \<Rightarrow> 'w router \<Rightarrow> string \<Rightarrow> nat option" where
  "match h s p = match_from (routes s) (normalizePath h (options s) p True) 0"

definition beforeChange :: "nat \<Rightarrow> 'w router \<Rightarrow> 'w router" where
  "beforeChange callback s = s\<lparr>before_hooks := before_hooks s @ [callback]\<rparr>"

definition afterChange :: "nat \<Rightarrow> 'w router \<Rightarrow> 'w router" where
  "afterChange callback s = s\<lparr>after_hooks := after_hooks s @ [callback]\<rparr>"

section \<open>The transition\<close>

text \<open>
  A \<^verbatim>\<open>for (const callback of list)\<close> loop of \<^verbatim>\<open>change\<close>: each hook is called with the
  transition object and awaited in turn; the first one that fails ends the loop with its
  error. The result holds the transition object as the hooks left it.
\<close>

fun run_hooks ::
  "'w host \<Rightarrow> transition \<Rightarrow> nat list \<Rightarrow> 'w router \<Rightarrow> error option \<times> transition \<times> 'w router"
where
  "run_hooks h t [] s = (None, t, s)"
| "run_hooks h t (callback # rest) s =
     (let r = call h callback t s;
          s1 = s\<lparr>options := options_left r, world := world_left r,
                 log := log s @ [Called callback t (this_left r) (thrown r)]\<rparr>
      in case thrown r of
           Some e \<Rightarrow> (Some e, this_left r, s1)
         | None \<Rightarrow> run_hooks h (this_left r) rest s1)"

definition set_prevent :: "bool \<Rightarrow> 'w router \<Rightarrow> 'w router" where
  "set_prevent b s = s\<lparr>options := (options s)\<lparr>prevent := b\<rparr>, log := log s @ [PreventSet b]\<rparr>"

text \<open>
  \<^verbatim>\<open>history.pushState({}, null, loc)\<close> in history mode, \<^verbatim>\<open>window.location.hash = loc\<close>
  otherwise. The log entry keeps the value \<^verbatim>\<open>options.prevent\<close> has during the write.
\<close>

definition write_url :: "'w host \<Rightarrow> string \<Rightarrow> 'w router \<Rightarrow> error option \<times> 'w router" where
  "write_url h loc s =
     (if write_throws h (mode (options s)) loc then (Some WriteError, s)
      else if mode (options s) = ''history''
           then (None, s\<lparr>log := log s @ [PushState loc (prevent (options s))]\<rparr>)
           else (None, s\<lparr>log := log s @ [HashSet loc (prevent (options s))]\<rparr>))"

text \<open>
  The inner function \<^verbatim>\<open>routeChange\<close>, called with the transition object as \<^verbatim>\<open>this\<close>;
  \<open>Some e\<close> is the error it throws. Where \<^verbatim>\<open>this.next\<close> is no route, \<^verbatim>\<open>paramsFor\<close> reads
  the path \<^verbatim>\<open>undefined\<close> and \<^verbatim>\<open>normalizePath\<close> throws TypeError.
\<close>

definition routeChange ::
  "'w host \<Rightarrow> transition \<Rightarrow> 'w router \<Rightarrow> error option \<times> 'w router"
where
  "routeChange h t s =
     (let w = (if replace t then
                 (case write_url h (location t) (set_prevent True s) of
                    (Some e, s1) \<Rightarrow> (Some e, s1)
                  | (None, s1) \<Rightarrow> (None, set_prevent False s1))
               else (None, s))
      in case w of
           (Some e, s2) \<Rightarrow> (Some e, s2)
         | (None, s2) \<Rightarrow>
             (case next t of
                None \<Rightarrow> (None, s2\<lparr>active := NoRoute, log := log s2 @ [Activated NoRoute]\<rparr>)
              | Some i \<Rightarrow>
                  (case queryFor h (location t) of
                     None \<Rightarrow> (Some URIError, s2)
                   | Some q \<Rightarrow>
                       if length (routes s2) \<le> i then (Some TypeError, s2)
                       else
                         (case paramsFor h (options s2) (location t) (routes s2 ! i) of
                            None \<Rightarrow> (Some URIError, s2)
                          | Some ps \<Rightarrow>
                              (None, s2\<lparr>routes := (routes s2)
                                         [i := (routes s2 ! i)\<lparr>query := q, params := ps\<rparr>],
                                       active := RouteAt i,
                                       log := log s2 @ [Activated (RouteAt i)]\<rparr>)))))"

text \<open>How the promise returned by an \<^verbatim>\<open>async\<close> function settles.\<close>

datatype outcome = Fulfilled | Rejected error

text \<open>
  \<^verbatim>\<open>change(location, replace)\<close>. A hook that fails leaves through
  \<^verbatim>\<open>return Promise.reject(error)\<close>: the returned promise is adopted, nothing is thrown
  inside the function, so the outer \<^verbatim>\<open>catch\<close> does not see it. An error thrown by
  \<^verbatim>\<open>routeChange\<close> is caught and logged with \<^verbatim>\<open>console.warn\<close>. Both loops run over
  \<^verbatim>\<open>_after\<close>, and all three steps work on the one transition object.
\<close>

definition change ::
  "'w host \<Rightarrow> string \<Rightarrow> bool \<Rightarrow> 'w router \<Rightarrow> outcome \<times> 'w router"
where
  "change h loc rep s =
     (let l = normalizePath h (options s) loc False;
          t = \<lparr>previous = active s, next = match h s l, location = l, replace = rep\<rparr>
      in case run_hooks h t (after_hooks s) s of
           (Some e, t1, s1) \<Rightarrow> (Rejected e, s1)
         | (None, t1, s1) \<Rightarrow>
             (case routeChange h t1 s1 of
                (Some e, s2) \<Rightarrow> (Fulfilled, s2\<lparr>log := log s2 @ [Warned e]\<rparr>)
              | (None, s2) \<Rightarrow>
                  (case run_hooks h t1 (after_hooks s2) s2 of
                     (Some e, t3, s3) \<Rightarrow> (Rejected e, s3)
                   | (None, t3, s3) \<Rightarrow> (Fulfilled, s3))))"

definition redirect :: "'w host \<Rightarrow> string \<Rightarrow> 'w router \<Rightarrow> outcome \<times> 'w router" where
  "redirect h toLocation s = change h toLocation True s"

text \<open>
  \<^verbatim>\<open>onPopState\<close>; \<open>href\<close> and \<open>hash\<close> are \<^verbatim>\<open>window.location.href\<close> and
  \<^verbatim>\<open>window.location.hash\<close> at the time of the event. \<open>None\<close>: the handler returned at
  once.
\<close>

definition onPopState ::
  "'w host \<Rightarrow> string \<Rightarrow> string \<Rightarrow> 'w router \<Rightarrow> (outcome \<times> 'w router) option"
where
  "onPopState h href hash s =
     (if prevent (options s) then None
      else Some (change h
                  (if mode (options s) = ''hash'' then replace_first ''#'' [] hash else href)
                  False s))"

text \<open>
  The state at load time: \<open>pushState\<close> tells whether the browser has
  \<^verbatim>\<open>window.history.pushState\<close>.
\<close>

definition initial :: "bool \<Rightarrow> 'w \<Rightarrow> 'w router" where
  "initial pushState w =
     \<lparr>routes = [], before_hooks = [], after_hooks = [], active = AbstractRoute,
      options = \<lparr>mode = (if pushState then ''history'' else ''hash''), base = [], prevent = False\<rparr>,
      world = w, log = []\<rparr>"

section \<open>A concrete browser\<close>

text \<open>
  A host to run the router on: the page is served from \<^verbatim>\<open>http://localhost\<close>, writing the
  URL never throws, plain objects inherit the standard properties of
  \<^verbatim>\<open>Object.prototype\<close>, and \<^verbatim>\<open>decodeURIComponent\<close> is percent-decoding on ASCII (an escape
  that is malformed throws; one from \<^verbatim>\<open>%80\<close> on leaves ASCII and is treated alike).
  Of the hooks, number 13 throws, number 17 assigns \<open>true\<close> to \<^verbatim>\<open>options.prevent\<close>, number
  19 assigns \<open>true\<close> to \<^verbatim>\<open>this.replace\<close>, number 21 throws when there is no active route
  (\<^verbatim>\<open>active()\<close> is \<^verbatim>\<open>null\<close>), and every other hook returns without touching anything.
\<close>

definition hex_digit :: "char \<Rightarrow> nat option" where
  "hex_digit c =
     map_of (zip ''0123456789abcdefABCDEF''
                 [0, 1, 2, 3, 4, 5, 6, 7, 8, 9, 10, 11, 12, 13, 14, 15, 10, 11, 12, 13, 14, 15]) c"

fun decode_ascii :: "string \<Rightarrow> string option" where
  "decode_ascii [] = Some []"
| "decode_ascii [c] = (if c = CHR ''%'' then None else Some [c])"
| "decode_ascii [c, a] = (if c = CHR ''%'' then None else map_option ((#) c) (decode_ascii [a]))"
| "decode_ascii (c # a # b # rest) =
     (if c = CHR ''%'' then
        (case (hex_digit a, hex_digit b) of
           (Some x, Some y) \<Rightarrow>
             if 16 * x + y < 128 then map_option ((#) (char_of (16 * x + y))) (decode_ascii rest)
             else None
         | _ \<Rightarrow> None)
      else map_option ((#) c) (decode_ascii (a # b # rest)))"

definition object_prototype :: "string list" where
  "object_prototype =
     [''constructor'', ''hasOwnProperty'', ''isPrototypeOf'', ''propertyIsEnumerable'',
      ''toLocaleString'', ''toString'', ''valueOf'', ''__defineGetter__'', ''__defineSetter__'',
      ''__lookupGetter__'', ''__lookupSetter__'']"

definition browser :: "unit host" where
  "browser =
     \<lparr>origin = ''http://localhost'',
      decodeURIComponent = decode_ascii,
      inherited = object_prototype,
      write_throws = (\<lambda>m l. False),
      call = (\<lambda>f t s.
        \<lparr>thrown = (if f = 13 then Some (Thrown ''hook 13'')
                   else if f = 21 \<and> active s = NoRoute then Some (Thrown ''hook 21'')
                   else None),
         this_left = (if f = 19 then t\<lparr>replace := True\<rparr> else t),
         options_left = (if f = 17 then (options s)\<lparr>prevent := True\<rparr> else options s),
         world_left = world s\<rparr>)\<rparr>"

text \<open>A table with two routes that both match \<^verbatim>\<open>/a\<close>, registered in this order.\<close>

definition example_table :: "unit router" where
  "example_table =
     the (Option.bind (add browser ''/:x'' (initial True ())) (add browser ''/a''))"

section \<open>Vocabulary for the statements about a transition\<close>

text \<open>The object \<^verbatim>\<open>change = {previous, next, location, replace}\<close> that \<open>change\<close> builds.\<close>

definition transition_of :: "'w host \<Rightarrow> string \<Rightarrow> bool \<Rightarrow> 'w router \<Rightarrow> transition" where
  "transition_of h loc rep s =
     \<lparr>previous = active s,
      next = match h s (normalizePath h (options s) loc False),
      location = normalizePath h (options s) loc False,
      replace = rep\<rparr>"

text \<open>The route a transition leads to.\<close>

definition target :: "transition \<Rightarrow> route_ref" where
  "target t = (case next t of None \<Rightarrow> NoRoute | Some i \<Rightarrow> RouteAt i)"

text \<open>
  What a commit that does not throw adds to the log, for the options \<open>opts\<close> it starts
  with: with the replace flag set, \<^verbatim>\<open>options.prevent\<close> is set, the URL is written and
  \<^verbatim>\<open>options.prevent\<close> is cleared; then the route is made active.
\<close>

definition write_event :: "options \<Rightarrow> string \<Rightarrow> event" where
  "write_event opts loc =
     (if mode opts = ''history'' then PushState loc (prevent opts) else HashSet loc (prevent opts))"

definition guard_events :: "options \<Rightarrow> transition \<Rightarrow> event list" where
  "guard_events opts t =
     (if replace t
      then [PreventSet True, write_event (opts\<lparr>prevent := True\<rparr>) (location t), PreventSet False]
      else [])"

definition commit_events :: "options \<Rightarrow> transition \<Rightarrow> event list" where
  "commit_events opts t = guard_events opts t @ [Activated (target t)]"

text \<open>
  A round of calls that all return: the hooks are called in turn, the transition object
  going through the states \<open>ts\<close>, each hook receiving it as the hook before left it.
\<close>

fun round_calls :: "nat list \<Rightarrow> transition list \<Rightarrow> event list" where
  "round_calls (f # fs) (t # t' # ts) = Called f t t' None # round_calls fs (t' # ts)"
| "round_calls fs ts = []"

text \<open>The state of the transition object after the calls in a piece of the log.\<close>

fun left_by :: "transition \<Rightarrow> event list \<Rightarrow> transition" where
  "left_by t [] = t"
| "left_by t (Called f a b r # es) = left_by b es"
| "left_by t (e # es) = left_by t es"

text \<open>The error a log entry reports for a call, and whether an entry is a warning.\<close>

fun failure :: "event \<Rightarrow> error option" where
  "failure (Called f a b r) = r"
| "failure e = None"

fun warning :: "event \<Rightarrow> bool" where
  "warning (Warned e) = True"
| "warning e = False"

text \<open>The three steps of \<open>change\<close>: the round of hooks, the commit, the second round.\<close>

definition round1 ::
  "'w host \<Rightarrow> string \<Rightarrow> bool \<Rightarrow> 'w router \<Rightarrow> error option \<times> transition \<times> 'w router"
where
  "round1 h loc rep s = run_hooks h (transition_of h loc rep s) (after_hooks s) s"

definition committed ::
  "'w host \<Rightarrow> string \<Rightarrow> bool \<Rightarrow> 'w router \<Rightarrow> error option \<times> 'w router"
where
  "committed h loc rep s =
     routeChange h (fst (snd (round1 h loc rep s))) (snd (snd (round1 h loc rep s)))"

definition round2 ::
  "'w host \<Rightarrow> string \<Rightarrow> bool \<Rightarrow> 'w router \<Rightarrow> error option \<times> transition \<times> 'w router"
where
  "round2 h loc rep s =
     run_hooks h (fst (snd (round1 h loc rep s)))
       (after_hooks (snd (committed h loc rep s))) (snd (committed h loc rep s))"

text \<open>What a call of \<open>change\<close> adds to the log.\<close>

definition new_events :: "'w host \<Rightarrow> string \<Rightarrow> bool \<Rightarrow> 'w router \<Rightarrow> event list" where
  "new_events h loc rep s = drop (length (log s)) (log (snd (change h loc rep s)))"

text \<open>A table with the route \<^verbatim>\<open>/users/:id\<close> and the hooks 1 and 21 registered with \<open>afterChange\<close>.\<close>

definition example_users :: "unit router" where
  "example_users =
     afterChange 21 (afterChange 1 (the (add browser ''/users/:id'' (initial True ()))))"

text \<open>The two halves of \<open>routeChange\<close>: writing the URL, and making the route active.\<close>

definition write_phase :: "'w host \<Rightarrow> transition \<Rightarrow> 'w router \<Rightarrow> error option \<times> 'w router" where
  "write_phase h t s =
     (if replace t then
        (case write_url h (location t) (set_prevent True s) of
           (Some e, s1) \<Rightarrow> (Some e, s1)
         | (None, s1) \<Rightarrow> (None, set_prevent False s1))
      else (None, s))"

definition activate :: "'w host \<Rightarrow> transition \<Rightarrow> 'w router \<Rightarrow> error option \<times> 'w router" where
  "activate h t s =
     (case next t of
        None \<Rightarrow> (None, s\<lparr>active := NoRoute, log := log s @ [Activated NoRoute]\<rparr>)
      | Some i \<Rightarrow>
          (case queryFor h (location t) of
             None \<Rightarrow> (Some URIError, s)
           | Some q \<Rightarrow>
               if length (routes s) \<le> i then (Some TypeError, s)
               else
                 (case paramsFor h (options s) (location t) (routes s ! i) of
                    None \<Rightarrow> (Some URIError, s)
                  | Some ps \<Rightarrow>
                      (None, s\<lparr>routes := (routes s)[i := (routes s ! i)\<lparr>query := q, params := ps\<rparr>],
                              active := RouteAt i,
                              log := log s @ [Activated (RouteAt i)]\<rparr>))))"

text \<open>The log entries that concern the URL bar and its guard.\<close>

fun url_event :: "event \<Rightarrow> bool" where
  "url_event (PreventSet b) = True"
| "url_event (PushState l p) = True"
| "url_event (HashSet l p) = True"
| "url_event (Called f t t' r) = False"
| "url_event (Activated r) = False"
| "url_event (Warned e) = False"

text \<open>The location written by a log entry, and the value of \<^verbatim>\<open>options.prevent\<close> during it.\<close>

fun written :: "event \<Rightarrow> (string \<times> bool) option" where
  "written (PushState l p) = Some (l, p)"
| "written (HashSet l p) = Some (l, p)"
| "written e = None"

text \<open>
  The shape the specification gives for a normalised path: \<^verbatim>\<open>/\<close> alone, or one or more
  non-empty segments, each preceded by a slash.
\<close>

definition path_form :: "string \<Rightarrow> bool" where
  "path_form y =
     (y = ''/'' \<or> (segments y \<noteq> [] \<and> y = concat (map ((#) (CHR ''/'')) (segments y))))"

text \<open>
  Templates whose compilation is simple: every segment is either a placeholder, \<open>:\<close>
  followed by one or more letters, or a literal made of characters other than \<open>/\<close>, \<open>:\<close>
  and the syntax characters of the pattern language.
\<close>

datatype template_segment = Param string | Literal string

fun render_segment :: "template_segment \<Rightarrow> string" where
  "render_segment (Param n) = CHR '':'' # n"
| "render_segment (Literal t) = t"

fun valid_segment :: "template_segment \<Rightarrow> bool" where
  "valid_segment (Param n) = (n \<noteq> [] \<and> list_all is_alpha n)"
| "valid_segment (Literal t) =
     (t \<noteq> [] \<and> list_all (\<lambda>c. c \<noteq> CHR ''/'' \<and> c \<noteq> CHR '':'' \<and> c \<notin> set syntax_chars) t)"

text \<open>The path with the given segments: \<^verbatim>\<open>/\<close> when there is none.\<close>

definition join_path :: "string list \<Rightarrow> string" where
  "join_path us = (if us = [] then ''/'' else concat (map ((#) (CHR ''/'')) us))"

definition template_path :: "template_segment list \<Rightarrow> string" where
  "template_path segs = join_path (map render_segment segs)"

text \<open>
  What a segment of a location has to be for a segment of the template: anything non-empty
  without a slash for a placeholder, the literal itself up to the case of letters
  otherwise.
\<close>

fun seg_matches :: "template_segment \<Rightarrow> string \<Rightarrow> bool" where
  "seg_matches (Param n) x = (x \<noteq> [] \<and> CHR ''/'' \<notin> set x)"
| "seg_matches (Literal t) x = (map upper x = map upper t)"

text \<open>The pattern text and the pattern of a segment.\<close>

fun regex_segment :: "template_segment \<Rightarrow> string" where
  "regex_segment (Param n) = ''([^/]+)''"
| "regex_segment (Literal t) = t"

fun seg_items :: "template_segment \<Rightarrow> regex" where
  "seg_items (Param n) = [(Lit (CHR ''/''), Once), (NotSlash, Plus)]"
| "seg_items (Literal t) = (Lit (CHR ''/''), Once) # map (\<lambda>c. (Lit c, Once)) t"

text \<open>
  Counting the non-empty segments of a path from left to right; the flag tells whether the
  characters read so far end inside a segment.
\<close>

fun count_segs :: "bool \<Rightarrow> string \<Rightarrow> nat" where
  "count_segs b [] = 0"
| "count_segs b (c # cs) =
     (if c = CHR ''/'' then count_segs False cs
      else (if b then 0 else 1) + count_segs True cs)"


section \<open>The commit phase\<close>

lemma routeChange_unfold:
  "routeChange h t s =
     (case write_phase h t s of
        (Some e, s2) \<Rightarrow> (Some e, s2)
      | (None, s2) \<Rightarrow> activate h t s2)"
  unfolding routeChange_def write_phase_def activate_def Let_def ..

lemma write_phase_cases:
  "write_phase h t s =
     (if replace t then
        (if write_throws h (mode (options s)) (location t)
         then (Some WriteError, set_prevent True s)
         else (None, s\<lparr>options := (options s)\<lparr>prevent := False\<rparr>,
                       log := log s @ guard_events (options s) t\<rparr>))
      else (None, s))"
  by (simp add: write_phase_def write_url_def set_prevent_def guard_events_def write_event_def)

lemma normalizePath_prevent [simp]:
  "normalizePath h (opts\<lparr>prevent := b\<rparr>) p q = normalizePath h opts p q"
  by (simp add: normalizePath_def)

lemma paramsFor_prevent [simp]:
  "paramsFor h (opts\<lparr>prevent := b\<rparr>) p m = paramsFor h opts p m"
  by (simp add: paramsFor_def)

lemma activate_frame:
  "options (snd (activate h t s)) = options s"
  "after_hooks (snd (activate h t s)) = after_hooks s"
  "before_hooks (snd (activate h t s)) = before_hooks s"
  "world (snd (activate h t s)) = world s"
  "fst (activate h t s) = Some e \<Longrightarrow> snd (activate h t s) = s"
  "fst (activate h t s) = None \<Longrightarrow> log (snd (activate h t s)) = log s @ [Activated (target t)]"
  by (auto simp: activate_def target_def split: option.splits if_splits)

lemma routeChange_after_hooks:
  "after_hooks (snd (routeChange h t s)) = after_hooks s"
  by (simp add: routeChange_unfold write_phase_cases set_prevent_def activate_frame)

lemma routeChange_ok:
  "fst (routeChange h t s) = None \<Longrightarrow>
     log (snd (routeChange h t s)) = log s @ commit_events (options s) t
     \<and> world (snd (routeChange h t s)) = world s
     \<and> options (snd (routeChange h t s)) =
         (if replace t then (options s)\<lparr>prevent := False\<rparr> else options s)"
  by (auto simp: routeChange_unfold write_phase_cases set_prevent_def activate_frame
        commit_events_def guard_events_def split: if_splits)

lemma routeChange_failed:
  "fst (routeChange h t s) = Some e \<Longrightarrow>
     active (snd (routeChange h t s)) = active s
     \<and> routes (snd (routeChange h t s)) = routes s
     \<and> (\<exists>evs. log (snd (routeChange h t s)) = log s @ evs
            \<and> (\<forall>c\<in>set evs. url_event c))"
  by (auto simp: routeChange_unfold write_phase_cases set_prevent_def activate_frame
        guard_events_def write_event_def split: if_splits)

lemma routeChange_prevent:
  assumes nt: "\<not> write_throws h (mode (options s)) (location t)"
  shows "prevent (options (snd (routeChange h t s))) =
           (if replace t then False else prevent (options s))
     \<and> (\<exists>evs. log (snd (routeChange h t s)) = log s @ guard_events (options s) t @ evs
            \<and> \<not> list_ex url_event evs)"
proof (cases "fst (routeChange h t s)")
  case None
  then show ?thesis using routeChange_ok [OF None]
    by (auto simp: commit_events_def)
next
  case (Some e)
  then show ?thesis using nt
    by (auto simp: routeChange_unfold write_phase_cases activate_frame guard_events_def
          split: if_splits)
qed

lemmas eval_defs =
  normalizePath_def strip_trailing_slashes_def strip_leading_slashes_def segments_def
  browser_def initial_def add_def regexp_new_def regex_test_def match_def
  is_alpha_def lower_letters_def upper_letters_def upper_def syntax_chars_def
  queryFor_def js_trim_def is_space_def strip_query_mark_def plus_to_space_def
  is_undefined_def assign_def object_prototype_def hex_digit_def paramsFor_def
  change_def routeChange_unfold write_phase_cases activate_def set_prevent_def
  beforeChange_def afterChange_def redirect_def example_table_def example_users_def
  transition_of_def write_event_def guard_events_def commit_events_def new_events_def
  target_def

section \<open>Matching: the first registered route wins\<close>

lemma match_from_None:
  "match_from rs url k = None \<longleftrightarrow> (\<forall>r\<in>set rs. \<not> regex_test (regex r) url)"
  by (induction rs arbitrary: k) auto

lemma match_from_Some:
  "match_from rs url k = Some i \<Longrightarrow>
     k \<le> i \<and> i - k < length rs \<and> regex_test (regex (rs ! (i - k))) url
     \<and> (\<forall>j<i - k. \<not> regex_test (regex (rs ! j)) url)"
proof (induction rs arbitrary: k)
  case Nil
  then show ?case by simp
next
  case (Cons r rs)
  show ?case
  proof (cases "regex_test (regex r) url")
    case True
    with Cons.prems show ?thesis by simp
  next
    case False
    with Cons.prems have m: "match_from rs url (Suc k) = Some i" by simp
    from Cons.IH [OF m] have ih: "Suc k \<le> i" "i - Suc k < length rs"
      "regex_test (regex (rs ! (i - Suc k))) url"
      "\<forall>j<i - Suc k. \<not> regex_test (regex (rs ! j)) url" by auto
    have eq: "i - k = Suc (i - Suc k)" using ih(1) by simp
    have "\<forall>j<i - k. \<not> regex_test (regex ((r # rs) ! j)) url"
    proof (intro allI impI)
      fix j assume "j < i - k"
      then show "\<not> regex_test (regex ((r # rs) ! j)) url"
        using False ih(4) eq by (cases j) auto
    qed
    then show ?thesis using ih eq by simp
  qed
qed

text \<open>
  C8. \<open>match\<close> normalises the path with the query dropped and returns the
  earliest-registered route whose pattern matches it: the result is \<open>None\<close> exactly when
  no registered route matches, and a result \<open>Some i\<close> is the index of a route that matches
  while no route registered before it does. So of two routes that both match, the one
  registered first is returned.
\<close>

theorem match_earliest:
  "(match h s p = None \<longleftrightarrow>
      (\<forall>r\<in>set (routes s). \<not> regex_test (regex r) (normalizePath h (options s) p True)))
   \<and> (\<forall>i. match h s p = Some i \<longrightarrow>
         i < length (routes s)
         \<and> regex_test (regex (routes s ! i)) (normalizePath h (options s) p True)
         \<and> (\<forall>j<i. \<not> regex_test (regex (routes s ! j)) (normalizePath h (options s) p True)))"
  unfolding match_def using match_from_None match_from_Some [where k = 0] by fastforce

theorem match_earliest_witness:
  "match browser example_table ''/a?q=1'' = Some 0
   \<and> length (routes example_table) = 2
   \<and> regex_test (regex (routes example_table ! 0))
        (normalizePath browser (options example_table) ''/a?q=1'' True)
   \<and> regex_test (regex (routes example_table ! 1))
        (normalizePath browser (options example_table) ''/a?q=1'' True)
   \<and> match browser example_table ''/a/b'' = None
   \<and> \<not> regex_test (regex (routes example_table ! 0))
        (normalizePath browser (options example_table) ''/a/b'' True)
   \<and> \<not> regex_test (regex (routes example_table ! 1))
        (normalizePath browser (options example_table) ''/a/b'' True)"
  using match_earliest [of browser example_table "''/a?q=1''"]
    match_earliest [of browser example_table "''/a/b''"]
  by (simp add: eval_defs)

section \<open>Duplicate keys of a query\<close>

lemma query_loop_keeps:
  "query_loop h ps q = Some q' \<Longrightarrow> q k = Some v \<Longrightarrow> q' k = Some v"
proof (induction ps arbitrary: q)
  case Nil
  then show ?case by simp
next
  case (Cons param rest)
  from Cons.prems(1) obtain q1 where step: "query_loop h rest q1 = Some q'"
    and q1: "\<exists>key w. q1 = (if is_undefined h q key then q(key \<mapsto> w) else q)"
    by (auto split: list.splits option.splits)
  from q1 Cons.prems(2) have "q1 k = Some v"
    by (auto simp: is_undefined_def)
  with Cons.IH [OF step] show ?case .
qed

lemma queryFor_duplicate_example:
  "queryFor browser ''/p?a=1&a=2'' = Some [''a'' \<mapsto> Some ''1'']"
  by (simp add: eval_defs)

text \<open>
  C9. \<open>queryFor\<close> tests \<^verbatim>\<open>query[key] === undefined\<close> on a plain object, and a key that
  names a property inherited from \<^verbatim>\<open>Object.prototype\<close> is never undefined there: for the
  location \<^verbatim>\<open>/p?toString=1&toString=2\<close> neither occurrence of the key is kept, and the
  result has no entry at all.
\<close>

theorem queryFor_inherited_key_dropped:
  "queryFor browser ''/p?toString=1&toString=2'' = Some Map.empty"
  by (simp add: eval_defs)

section \<open>The two rounds of hooks registered with \<open>afterChange\<close>\<close>

lemma change_steps:
  "change h loc rep s =
     (case run_hooks h (transition_of h loc rep s) (after_hooks s) s of
        (Some e, t1, s1) \<Rightarrow> (Rejected e, s1)
      | (None, t1, s1) \<Rightarrow>
          (case routeChange h t1 s1 of
             (Some e, s2) \<Rightarrow> (Fulfilled, s2\<lparr>log := log s2 @ [Warned e]\<rparr>)
           | (None, s2) \<Rightarrow>
               (case run_hooks h t1 (after_hooks s2) s2 of
                  (Some e, t3, s3) \<Rightarrow> (Rejected e, s3)
                | (None, t3, s3) \<Rightarrow> (Fulfilled, s3))))"
  unfolding change_def transition_of_def Let_def ..

lemma change_unfold:
  "change h loc rep s =
     (case fst (round1 h loc rep s) of
        Some e \<Rightarrow> (Rejected e, snd (snd (round1 h loc rep s)))
      | None \<Rightarrow>
          (case fst (committed h loc rep s) of
             Some e \<Rightarrow>
               (Fulfilled,
                (snd (committed h loc rep s))
                  \<lparr>log := log (snd (committed h loc rep s)) @ [Warned e]\<rparr>)
           | None \<Rightarrow>
               (case fst (round2 h loc rep s) of
                  Some e \<Rightarrow> (Rejected e, snd (snd (round2 h loc rep s)))
                | None \<Rightarrow> (Fulfilled, snd (snd (round2 h loc rep s))))))"
proof -
  let ?t = "transition_of h loc rep s"
  obtain r1 t1 s1 where a: "run_hooks h ?t (after_hooks s) s = (r1, t1, s1)"
    by (cases "run_hooks h ?t (after_hooks s) s")
  obtain r2 s2 where b: "routeChange h t1 s1 = (r2, s2)" by (cases "routeChange h t1 s1")
  obtain r3 t3 s3 where c: "run_hooks h t1 (after_hooks s2) s2 = (r3, t3, s3)"
    by (cases "run_hooks h t1 (after_hooks s2) s2")
  have p1: "round1 h loc rep s = (r1, t1, s1)" using a by (simp add: round1_def)
  have p2: "committed h loc rep s = (r2, s2)" using b by (simp add: committed_def p1)
  have p3: "round2 h loc rep s = (r3, t3, s3)" using c by (simp add: round2_def p1 p2)
  show ?thesis
    by (simp only: change_steps a b c p1 p2 p3 prod.case fst_conv snd_conv split: option.splits)
qed

lemma run_hooks_frame:
  "routes (snd (snd (run_hooks h t fs s))) = routes s
   \<and> before_hooks (snd (snd (run_hooks h t fs s))) = before_hooks s
   \<and> after_hooks (snd (snd (run_hooks h t fs s))) = after_hooks s
   \<and> active (snd (snd (run_hooks h t fs s))) = active s"
  by (induction fs arbitrary: t s) (auto simp: Let_def split: option.splits)

lemma run_hooks_ok:
  "fst (run_hooks h t fs s) = None \<Longrightarrow>
     \<exists>ts. length ts = Suc (length fs) \<and> hd ts = t
        \<and> last ts = fst (snd (run_hooks h t fs s))
        \<and> log (snd (snd (run_hooks h t fs s))) = log s @ round_calls fs ts"
proof (induction fs arbitrary: t s)
  case Nil
  have "length [t] = Suc (length ([] :: nat list)) \<and> hd [t] = t
        \<and> last [t] = fst (snd (run_hooks h t [] s))
        \<and> log (snd (snd (run_hooks h t [] s))) = log s @ round_calls [] [t]" by simp
  then show ?case by blast
next
  case (Cons f fs)
  let ?r = "call h f t s"
  let ?s1 = "s\<lparr>options := options_left ?r, world := world_left ?r,
               log := log s @ [Called f t (this_left ?r) (thrown ?r)]\<rparr>"
  have n: "thrown ?r = None" using Cons.prems by (simp add: Let_def split: option.splits)
  have rec: "run_hooks h t (f # fs) s = run_hooks h (this_left ?r) fs ?s1"
    using n by (simp add: Let_def)
  have "fst (run_hooks h (this_left ?r) fs ?s1) = None" using Cons.prems rec by simp
  from Cons.IH [OF this] obtain ts where ts: "length ts = Suc (length fs)"
    "hd ts = this_left ?r" "last ts = fst (snd (run_hooks h (this_left ?r) fs ?s1))"
    "log (snd (snd (run_hooks h (this_left ?r) fs ?s1))) = log ?s1 @ round_calls fs ts" by blast
  obtain u us where us: "ts = u # us" using ts(1) by (cases ts) auto
  have u: "u = this_left ?r" using ts(2) us by simp
  have "length (t # ts) = Suc (length (f # fs)) \<and> hd (t # ts) = t
        \<and> last (t # ts) = fst (snd (run_hooks h t (f # fs) s))
        \<and> log (snd (snd (run_hooks h t (f # fs) s))) = log s @ round_calls (f # fs) (t # ts)"
    using ts rec us u n by simp
  then show ?case by blast
qed

lemma run_hooks_calls:
  "\<exists>cs. log (snd (snd (run_hooks h t fs s))) = log s @ cs
      \<and> (\<forall>c\<in>set cs. \<exists>f a b r. c = Called f a b r \<and> f \<in> set fs)
      \<and> left_by t cs = fst (snd (run_hooks h t fs s))
      \<and> (\<forall>e. (fst (run_hooks h t fs s) = Some e) = (Some e \<in> set (map failure cs)))"
proof (induction fs arbitrary: t s)
  case Nil
  show ?case by simp
next
  case (Cons f fs)
  let ?r = "call h f t s"
  let ?s1 = "s\<lparr>options := options_left ?r, world := world_left ?r,
               log := log s @ [Called f t (this_left ?r) (thrown ?r)]\<rparr>"
  show ?case
  proof (cases "thrown ?r")
    case (Some e0)
    have "log (snd (snd (run_hooks h t (f # fs) s))) = log s @ [Called f t (this_left ?r) (Some e0)]
      \<and> (\<forall>c\<in>set [Called f t (this_left ?r) (Some e0)]. \<exists>g a b r. c = Called g a b r \<and> g \<in> set (f # fs))
      \<and> left_by t [Called f t (this_left ?r) (Some e0)] = fst (snd (run_hooks h t (f # fs) s))
      \<and> (\<forall>e. (fst (run_hooks h t (f # fs) s) = Some e) =
               (Some e \<in> set (map failure [Called f t (this_left ?r) (Some e0)])))"
      using Some by (auto simp: Let_def)
    then show ?thesis by blast
  next
    case None
    have rec: "run_hooks h t (f # fs) s = run_hooks h (this_left ?r) fs ?s1"
      using None by (simp add: Let_def)
    from Cons.IH [of "this_left ?r" ?s1] obtain cs where cs:
      "log (snd (snd (run_hooks h (this_left ?r) fs ?s1))) = log ?s1 @ cs"
      "\<forall>c\<in>set cs. \<exists>g a b r. c = Called g a b r \<and> g \<in> set fs"
      "left_by (this_left ?r) cs = fst (snd (run_hooks h (this_left ?r) fs ?s1))"
      "\<forall>e. (fst (run_hooks h (this_left ?r) fs ?s1) = Some e) = (Some e \<in> set (map failure cs))"
      by blast
    let ?cs = "Called f t (this_left ?r) None # cs"
    have "log (snd (snd (run_hooks h t (f # fs) s))) = log s @ ?cs"
      using rec cs(1) None by simp
    moreover have "\<forall>c\<in>set ?cs. \<exists>g a b r. c = Called g a b r \<and> g \<in> set (f # fs)"
      using cs(2) by auto
    moreover have "left_by t ?cs = fst (snd (run_hooks h t (f # fs) s))"
      using rec cs(3) by simp
    moreover have "\<forall>e. (fst (run_hooks h t (f # fs) s) = Some e) = (Some e \<in> set (map failure ?cs))"
      using rec cs(4) by simp
    ultimately show ?thesis by blast
  qed
qed

lemma routeChange_events:
  "\<exists>evs. log (snd (routeChange h t s)) = log s @ evs
      \<and> (\<forall>c\<in>set evs. url_event c \<or> (\<exists>r. c = Activated r))"
proof (cases "fst (routeChange h t s)")
  case None
  from routeChange_ok [OF None] show ?thesis
    by (auto simp: commit_events_def guard_events_def write_event_def)
next
  case (Some e)
  from routeChange_failed [OF Some] show ?thesis by auto
qed

text \<open>What the three steps add to the log.\<close>

lemma round1_calls:
  "\<exists>cs. log (snd (snd (round1 h loc rep s))) = log s @ cs
      \<and> (\<forall>c\<in>set cs. \<exists>f a b r. c = Called f a b r \<and> f \<in> set (after_hooks s))
      \<and> left_by (transition_of h loc rep s) cs = fst (snd (round1 h loc rep s))
      \<and> (\<forall>e. (fst (round1 h loc rep s) = Some e) = (Some e \<in> set (map failure cs)))"
  unfolding round1_def by (rule run_hooks_calls)

lemma round1_after_hooks:
  "after_hooks (snd (snd (round1 h loc rep s))) = after_hooks s"
  "active (snd (snd (round1 h loc rep s))) = active s"
  by (simp_all add: round1_def run_hooks_frame)

lemma committed_after_hooks:
  "after_hooks (snd (committed h loc rep s)) = after_hooks s"
  by (simp add: committed_def routeChange_after_hooks round1_after_hooks)

lemma committed_events:
  "\<exists>evs. log (snd (committed h loc rep s)) = log (snd (snd (round1 h loc rep s))) @ evs
      \<and> (\<forall>c\<in>set evs. url_event c \<or> (\<exists>r. c = Activated r))"
  unfolding committed_def by (rule routeChange_events)

lemma round2_calls:
  "\<exists>cs. log (snd (snd (round2 h loc rep s))) = log (snd (committed h loc rep s)) @ cs
      \<and> (\<forall>c\<in>set cs. \<exists>f a b r. c = Called f a b r \<and> f \<in> set (after_hooks s))
      \<and> left_by (fst (snd (round1 h loc rep s))) cs = fst (snd (round2 h loc rep s))
      \<and> (\<forall>e. (fst (round2 h loc rep s) = Some e) = (Some e \<in> set (map failure cs)))"
  using run_hooks_calls [of h "fst (snd (round1 h loc rep s))"
      "after_hooks (snd (committed h loc rep s))" "snd (committed h loc rep s)"]
  by (simp add: round2_def committed_after_hooks)

text \<open>
  The four ways a call of \<open>change\<close> can go, with what each adds to the log: \<open>cs1\<close> are the
  calls of the first round, \<open>evs\<close> the entries of the commit, \<open>cs2\<close> the calls of the
  second round.
\<close>

lemma change_cases:
  obtains
    (hook1) e cs1 where
      "fst (round1 h loc rep s) = Some e"
      "change h loc rep s = (Rejected e, snd (snd (round1 h loc rep s)))"
      "new_events h loc rep s = cs1"
      "log (snd (snd (round1 h loc rep s))) = log s @ cs1"
  | (commit) e cs1 evs where
      "fst (round1 h loc rep s) = None" "fst (committed h loc rep s) = Some e"
      "change h loc rep s =
         (Fulfilled, (snd (committed h loc rep s))
                       \<lparr>log := log (snd (committed h loc rep s)) @ [Warned e]\<rparr>)"
      "new_events h loc rep s = cs1 @ evs @ [Warned e]"
      "log (snd (snd (round1 h loc rep s))) = log s @ cs1"
      "log (snd (committed h loc rep s)) = log (snd (snd (round1 h loc rep s))) @ evs"
  | (hook2) e cs1 evs cs2 where
      "fst (round1 h loc rep s) = None" "fst (committed h loc rep s) = None"
      "fst (round2 h loc rep s) = Some e"
      "change h loc rep s = (Rejected e, snd (snd (round2 h loc rep s)))"
      "new_events h loc rep s = cs1 @ evs @ cs2"
      "log (snd (snd (round1 h loc rep s))) = log s @ cs1"
      "log (snd (committed h loc rep s)) = log (snd (snd (round1 h loc rep s))) @ evs"
      "log (snd (snd (round2 h loc rep s))) = log (snd (committed h loc rep s)) @ cs2"
  | (both) cs1 evs cs2 where
      "fst (round1 h loc rep s) = None" "fst (committed h loc rep s) = None"
      "fst (round2 h loc rep s) = None"
      "change h loc rep s = (Fulfilled, snd (snd (round2 h loc rep s)))"
      "new_events h loc rep s = cs1 @ evs @ cs2"
      "log (snd (snd (round1 h loc rep s))) = log s @ cs1"
      "log (snd (committed h loc rep s)) = log (snd (snd (round1 h loc rep s))) @ evs"
      "log (snd (snd (round2 h loc rep s))) = log (snd (committed h loc rep s)) @ cs2"
proof -
  obtain cs1 where cs1: "log (snd (snd (round1 h loc rep s))) = log s @ cs1"
    using round1_calls [of h loc rep s] by blast
  obtain evs where evs:
    "log (snd (committed h loc rep s)) = log (snd (snd (round1 h loc rep s))) @ evs"
    using committed_events [of h loc rep s] by blast
  obtain cs2 where cs2:
    "log (snd (snd (round2 h loc rep s))) = log (snd (committed h loc rep s)) @ cs2"
    using round2_calls [of h loc rep s] by blast
  show thesis
  proof (cases "fst (round1 h loc rep s)")
    case (Some e)
    have c: "change h loc rep s = (Rejected e, snd (snd (round1 h loc rep s)))"
      using Some by (simp add: change_unfold)
    have "new_events h loc rep s = cs1" using c cs1 by (simp add: new_events_def)
    then show thesis using hook1 [OF Some c _ cs1] by blast
  next
    case None
    show thesis
    proof (cases "fst (committed h loc rep s)")
      case (Some e)
      have c: "change h loc rep s =
         (Fulfilled, (snd (committed h loc rep s))
                       \<lparr>log := log (snd (committed h loc rep s)) @ [Warned e]\<rparr>)"
        using None Some by (simp add: change_unfold)
      have "new_events h loc rep s = cs1 @ evs @ [Warned e]"
        using c cs1 evs by (simp add: new_events_def)
      then show thesis using commit [OF None Some c _ cs1 evs] by blast
    next
      case n2: None
      show thesis
      proof (cases "fst (round2 h loc rep s)")
        case (Some e)
        have c: "change h loc rep s = (Rejected e, snd (snd (round2 h loc rep s)))"
          using None n2 Some by (simp add: change_unfold)
        have "new_events h loc rep s = cs1 @ evs @ cs2"
          using c cs1 evs cs2 by (simp add: new_events_def)
        then show thesis using hook2 [OF None n2 Some c _ cs1 evs cs2] by blast
      next
        case n3: None
        have c: "change h loc rep s = (Fulfilled, snd (snd (round2 h loc rep s)))"
          using None n2 n3 by (simp add: change_unfold)
        have "new_events h loc rep s = cs1 @ evs @ cs2"
          using c cs1 evs cs2 by (simp add: new_events_def)
        then show thesis using both [OF None n2 n3 c _ cs1 evs cs2] by blast
      qed
    qed
  qed
qed


lemma same_log: "log s @ a = log s @ b \<Longrightarrow> a = b"
  by simp

text \<open>
  C2 (amended). In a transition in which no call of a hook fails and the commit does not
  throw (nothing is warned), the promise fulfils and what the call adds to the log is: one
  round of calls of the hooks registered with \<open>afterChange\<close>, each hook once, in
  registration order and returning; then the entries of the commit, ending with the new
  active route; then a second such round. The rounds work on the one transition object:
  the first hook receives the transition as \<open>change\<close> built it, each later call receives
  it as the call before left it, and the commit and the second round start from what the
  first round left.
\<close>

theorem after_hooks_run_twice:
  assumes hooks: "list_all (\<lambda>c. failure c = None) (new_events h loc rep s)"
    and commit: "\<not> list_ex warning (new_events h loc rep s)"
  shows "fst (change h loc rep s) = Fulfilled
       \<and> (\<exists>ts1 ts2.
            length ts1 = Suc (length (after_hooks s))
            \<and> length ts2 = Suc (length (after_hooks s))
            \<and> hd ts1 = transition_of h loc rep s
            \<and> hd ts2 = last ts1
            \<and> new_events h loc rep s =
                round_calls (after_hooks s) ts1
                @ commit_events (options (snd (snd (round1 h loc rep s)))) (last ts1)
                @ round_calls (after_hooks s) ts2)"
proof (cases rule: change_cases [of h loc rep s])
  case (hook1 e cs1)
  obtain cs where cs: "log (snd (snd (round1 h loc rep s))) = log s @ cs"
    "\<forall>e. (fst (round1 h loc rep s) = Some e) = (Some e \<in> set (map failure cs))"
    using round1_calls [of h loc rep s] by blast
  have "cs = cs1" using cs(1) hook1(4) by simp
  then have "Some e \<in> set (map failure (new_events h loc rep s))"
    using cs(2) hook1(1,3) by auto
  then have False using hooks by (auto simp: list_all_iff)
  then show ?thesis ..
next
  case (commit e cs1 evs)
  then have "list_ex warning (new_events h loc rep s)" by simp
  then show ?thesis using assms(2) by simp
next
  case (hook2 e cs1 evs cs2)
  obtain cs where cs:
    "log (snd (snd (round2 h loc rep s))) = log (snd (committed h loc rep s)) @ cs"
    "\<forall>e. (fst (round2 h loc rep s) = Some e) = (Some e \<in> set (map failure cs))"
    using round2_calls [of h loc rep s] by blast
  have "cs = cs2" using cs(1) hook2(8) by simp
  then have "Some e \<in> set (map failure (new_events h loc rep s))"
    using cs(2) hook2(3,5) by auto
  then have False using hooks by (auto simp: list_all_iff)
  then show ?thesis ..
next
  case (both cs1 evs cs2)
  obtain ts1 where ts1: "length ts1 = Suc (length (after_hooks s))"
    "hd ts1 = transition_of h loc rep s" "last ts1 = fst (snd (round1 h loc rep s))"
    "log (snd (snd (round1 h loc rep s))) = log s @ round_calls (after_hooks s) ts1"
    using run_hooks_ok [of h "transition_of h loc rep s" "after_hooks s" s] both(1)
    unfolding round1_def by blast
  have c1: "cs1 = round_calls (after_hooks s) ts1" using ts1(4) both(6) by simp
  have "log (snd (committed h loc rep s)) =
      log (snd (snd (round1 h loc rep s)))
      @ commit_events (options (snd (snd (round1 h loc rep s)))) (last ts1)"
    using routeChange_ok [of h "fst (snd (round1 h loc rep s))" "snd (snd (round1 h loc rep s))"]
      both(2) ts1(3) by (simp add: committed_def)
  then have c2: "evs = commit_events (options (snd (snd (round1 h loc rep s)))) (last ts1)"
    using both(7) by simp
  obtain ts2 where ts2: "length ts2 = Suc (length (after_hooks s))"
    "hd ts2 = fst (snd (round1 h loc rep s))"
    "log (snd (snd (round2 h loc rep s))) =
       log (snd (committed h loc rep s)) @ round_calls (after_hooks s) ts2"
    using run_hooks_ok [of h "fst (snd (round1 h loc rep s))"
        "after_hooks (snd (committed h loc rep s))" "snd (committed h loc rep s)"] both(3)
    unfolding round2_def committed_after_hooks by blast
  have c3: "cs2 = round_calls (after_hooks s) ts2" using ts2(3) both(8) by simp
  have "length ts1 = Suc (length (after_hooks s))
            \<and> length ts2 = Suc (length (after_hooks s))
            \<and> hd ts1 = transition_of h loc rep s
            \<and> hd ts2 = last ts1
            \<and> new_events h loc rep s =
                round_calls (after_hooks s) ts1
                @ commit_events (options (snd (snd (round1 h loc rep s)))) (last ts1)
                @ round_calls (after_hooks s) ts2"
    using ts1(1,2,3) ts2(1,2) both(5) c1 c2 c3 by simp
  then show ?thesis using both(4) by auto
qed

text \<open>The example table and a transition on it, evaluated.\<close>

lemma example_users_eq:
  "example_users =
     \<lparr>routes = [\<lparr>path = ''/users/:id'',
                 regex = [(Lit CHR ''/'', Once), (Lit CHR ''u'', Once), (Lit CHR ''s'', Once),
                          (Lit CHR ''e'', Once), (Lit CHR ''r'', Once), (Lit CHR ''s'', Once),
                          (Lit CHR ''/'', Once), (NotSlash, Plus)],
                 query = Map.empty, params = Map.empty\<rparr>],
      before_hooks = [], after_hooks = [1, 21], active = AbstractRoute,
      options = \<lparr>mode = ''history'', base = [], prevent = False\<rparr>,
      world = (), log = []\<rparr>"
  by (simp add: eval_defs)

lemma example_transition:
  "transition_of browser ''/users/42?active=true'' True example_users =
     \<lparr>previous = AbstractRoute, next = Some 0, location = ''/users/42?active=true'',
      replace = True\<rparr>"
  by (simp add: example_users_eq) (simp add: eval_defs)

lemma example_users_change:
  "fst (change browser ''/users/42?active=true'' True example_users) = Fulfilled"
  "log (snd (change browser ''/users/42?active=true'' True example_users)) =
     [Called 1 \<lparr>previous = AbstractRoute, next = Some 0,
                location = ''/users/42?active=true'', replace = True\<rparr>
               \<lparr>previous = AbstractRoute, next = Some 0,
                location = ''/users/42?active=true'', replace = True\<rparr> None,
      Called 21 \<lparr>previous = AbstractRoute, next = Some 0,
                location = ''/users/42?active=true'', replace = True\<rparr>
               \<lparr>previous = AbstractRoute, next = Some 0,
                location = ''/users/42?active=true'', replace = True\<rparr> None,
      PreventSet True, PushState ''/users/42?active=true'' True, PreventSet False,
      Activated (RouteAt 0),
      Called 1 \<lparr>previous = AbstractRoute, next = Some 0,
                location = ''/users/42?active=true'', replace = True\<rparr>
               \<lparr>previous = AbstractRoute, next = Some 0,
                location = ''/users/42?active=true'', replace = True\<rparr> None,
      Called 21 \<lparr>previous = AbstractRoute, next = Some 0,
                location = ''/users/42?active=true'', replace = True\<rparr>
               \<lparr>previous = AbstractRoute, next = Some 0,
                location = ''/users/42?active=true'', replace = True\<rparr> None]"
  by (simp_all add: change_steps example_transition)
     (simp_all add: example_users_eq browser_def routeChange_unfold write_phase_cases activate_def
        guard_events_def write_event_def set_prevent_def,
      simp_all add: eval_defs)

lemma example_users_events:
  "new_events browser ''/users/42?active=true'' True example_users =
     log (snd (change browser ''/users/42?active=true'' True example_users))"
  by (simp add: new_events_def example_users_eq)

theorem after_hooks_run_twice_witness:
  "list_all (\<lambda>c. failure c = None) (new_events browser ''/users/42?active=true'' True example_users)
   \<and> \<not> list_ex warning (new_events browser ''/users/42?active=true'' True example_users)
   \<and> after_hooks example_users = [1, 21]
   \<and> fst (change browser ''/users/42?active=true'' True example_users) = Fulfilled
   \<and> (\<exists>ts1 ts2.
        length ts1 = 3 \<and> length ts2 = 3
        \<and> hd ts1 = transition_of browser ''/users/42?active=true'' True example_users
        \<and> hd ts2 = last ts1
        \<and> new_events browser ''/users/42?active=true'' True example_users =
            round_calls [1, 21] ts1
            @ commit_events
                (options (snd (snd (round1 browser ''/users/42?active=true'' True example_users))))
                (last ts1)
            @ round_calls [1, 21] ts2)"
proof -
  have hooks: "list_all (\<lambda>c. failure c = None)
      (new_events browser ''/users/42?active=true'' True example_users)"
    by (simp add: example_users_events example_users_change(2))
  have commit: "\<not> list_ex warning
      (new_events browser ''/users/42?active=true'' True example_users)"
    by (simp add: example_users_events example_users_change(2))
  have a: "after_hooks example_users = [1, 21]" by (simp add: example_users_eq)
  from after_hooks_run_twice [OF hooks commit] hooks commit a show ?thesis
    by (simp add: numeral_3_eq_3)
qed

text \<open>
  C2 as stated fails where a hook fails: hook 13, registered with \<open>afterChange\<close>, throws; it
  is called once, and neither the commit nor the second round takes place.
\<close>

theorem failing_hook_called_once:
  "after_hooks (afterChange 13 (initial True ())) = [13]
   \<and> log (snd (change browser ''/x'' True (afterChange 13 (initial True ())))) =
       [Called 13 \<lparr>previous = AbstractRoute, next = None, location = ''/x'', replace = True\<rparr>
                  \<lparr>previous = AbstractRoute, next = None, location = ''/x'', replace = True\<rparr>
                  (Some (Thrown ''hook 13''))]"
  by (simp add: eval_defs Let_def)

section \<open>Hooks registered with \<open>beforeChange\<close>\<close>

lemma round1_props:
  assumes "log (snd (snd (round1 h loc rep s))) = log s @ cs"
  shows "\<forall>c\<in>set cs. \<exists>f a b r. c = Called f a b r \<and> f \<in> set (after_hooks s)"
    and "left_by (transition_of h loc rep s) cs = fst (snd (round1 h loc rep s))"
    and "\<forall>e. (fst (round1 h loc rep s) = Some e) = (Some e \<in> set (map failure cs))"
proof -
  obtain cs' where cs': "log (snd (snd (round1 h loc rep s))) = log s @ cs'"
    "\<forall>c\<in>set cs'. \<exists>f a b r. c = Called f a b r \<and> f \<in> set (after_hooks s)"
    "left_by (transition_of h loc rep s) cs' = fst (snd (round1 h loc rep s))"
    "\<forall>e. (fst (round1 h loc rep s) = Some e) = (Some e \<in> set (map failure cs'))"
    using round1_calls [of h loc rep s] by blast
  have e: "cs' = cs" using cs'(1) assms by simp
  show "\<forall>c\<in>set cs. \<exists>f a b r. c = Called f a b r \<and> f \<in> set (after_hooks s)"
    using cs'(2) unfolding e .
  show "left_by (transition_of h loc rep s) cs = fst (snd (round1 h loc rep s))"
    using cs'(3) unfolding e .
  show "\<forall>e. (fst (round1 h loc rep s) = Some e) = (Some e \<in> set (map failure cs))"
    using cs'(4) unfolding e .
qed

lemma committed_props:
  assumes "log (snd (committed h loc rep s)) = log (snd (snd (round1 h loc rep s))) @ evs"
  shows "\<forall>c\<in>set evs. url_event c \<or> (\<exists>r. c = Activated r)"
proof -
  obtain evs' where evs':
    "log (snd (committed h loc rep s)) = log (snd (snd (round1 h loc rep s))) @ evs'"
    "\<forall>c\<in>set evs'. url_event c \<or> (\<exists>r. c = Activated r)"
    using committed_events [of h loc rep s] by blast
  have "evs' = evs" using evs'(1) assms by simp
  then show ?thesis using evs'(2) by simp
qed

lemma round2_props:
  assumes "log (snd (snd (round2 h loc rep s))) = log (snd (committed h loc rep s)) @ cs"
  shows "\<forall>c\<in>set cs. \<exists>f a b r. c = Called f a b r \<and> f \<in> set (after_hooks s)"
    and "\<forall>e. (fst (round2 h loc rep s) = Some e) = (Some e \<in> set (map failure cs))"
proof -
  obtain cs' where cs':
    "log (snd (snd (round2 h loc rep s))) = log (snd (committed h loc rep s)) @ cs'"
    "\<forall>c\<in>set cs'. \<exists>f a b r. c = Called f a b r \<and> f \<in> set (after_hooks s)"
    "\<forall>e. (fst (round2 h loc rep s) = Some e) = (Some e \<in> set (map failure cs'))"
    using round2_calls [of h loc rep s] by blast
  have e: "cs' = cs" using cs'(1) assms by simp
  show "\<forall>c\<in>set cs. \<exists>f a b r. c = Called f a b r \<and> f \<in> set (after_hooks s)"
    using cs'(2) unfolding e .
  show "\<forall>e. (fst (round2 h loc rep s) = Some e) = (Some e \<in> set (map failure cs))"
    using cs'(3) unfolding e .
qed

lemma change_calls_after_hooks_only:
  assumes "Called f a b r \<in> set (new_events h loc rep s)"
  shows "f \<in> set (after_hooks s)"
proof (cases rule: change_cases [of h loc rep s])
  case (hook1 e cs1)
  then show ?thesis using assms round1_props(1) [OF hook1(4)] by auto
next
  case (commit e cs1 evs)
  then show ?thesis
    using assms round1_props(1) [OF commit(5)] committed_props [OF commit(6)] by auto
next
  case (hook2 e cs1 evs cs2)
  then show ?thesis
    using assms round1_props(1) [OF hook2(6)] committed_props [OF hook2(7)]
      round2_props(1) [OF hook2(8)] by auto
next
  case (both cs1 evs cs2)
  then show ?thesis
    using assms round1_props(1) [OF both(6)] committed_props [OF both(7)]
      round2_props(1) [OF both(8)] by auto
qed

text \<open>
  C1. A hook registered with \<open>beforeChange\<close> is stored in \<open>before_hooks\<close>, and \<open>change\<close>
  never reads that list: both of its loops run over \<open>after_hooks\<close>, so every hook it calls
  is one registered with \<open>afterChange\<close> (\<open>change_calls_after_hooks_only\<close>). Here hook 1 is
  registered with \<open>beforeChange\<close> and the navigation to \<^verbatim>\<open>/x\<close> commits without calling it.
\<close>

theorem change_ignores_before_hooks:
  "before_hooks (beforeChange 1 (initial True ())) = [1]
   \<and> change browser ''/x'' True (beforeChange 1 (initial True ())) =
       (Fulfilled,
        (beforeChange 1 (initial True ()))
          \<lparr>active := NoRoute,
           log := [PreventSet True, PushState ''/x'' True, PreventSet False,
                   Activated NoRoute]\<rparr>)"
  by (simp add: eval_defs Let_def)

section \<open>How the promise of \<open>change\<close> settles\<close>

lemma url_event_no_failure: "url_event c \<Longrightarrow> failure c = None \<and> \<not> warning c"
  by (cases c) simp_all

lemma commit_no_failure:
  assumes "\<forall>c\<in>set evs. url_event c \<or> (\<exists>r. c = Activated r)"
  shows "Some e \<notin> set (map failure evs)" and "\<not> list_ex warning evs"
  using assms url_event_no_failure by (fastforce simp: list_ex_iff)+

lemma calls_no_warning:
  assumes "\<forall>c\<in>set cs. \<exists>f a b r. c = Called f a b r \<and> f \<in> set fs"
  shows "\<not> list_ex warning cs"
  using assms by (fastforce simp: list_ex_iff)

lemma change_rejected_iff:
  "(fst (change h loc rep s) = Rejected e) =
     (Some e \<in> set (map failure (new_events h loc rep s)))"
proof (cases rule: change_cases [of h loc rep s])
  case (hook1 e1 cs1)
  have "(Some e1 = Some e) = (Some e \<in> set (map failure cs1))"
    using round1_props(3) [OF hook1(4)] hook1(1) by metis
  then show ?thesis using hook1(2,3) by auto
next
  case (commit e1 cs1 evs)
  have "Some e \<notin> set (map failure cs1)" using round1_props(3) [OF commit(5)] commit(1) by auto
  moreover have "Some e \<notin> set (map failure evs)"
    using commit_no_failure(1) [OF committed_props [OF commit(6)]] .
  ultimately show ?thesis using commit(3,4) by auto
next
  case (hook2 e1 cs1 evs cs2)
  have "Some e \<notin> set (map failure cs1)" using round1_props(3) [OF hook2(6)] hook2(1) by auto
  moreover have "Some e \<notin> set (map failure evs)"
    using commit_no_failure(1) [OF committed_props [OF hook2(7)]] .
  moreover have "(Some e1 = Some e) = (Some e \<in> set (map failure cs2))"
    using round2_props(2) [OF hook2(8)] hook2(3) by metis
  ultimately show ?thesis using hook2(4,5) by auto
next
  case (both cs1 evs cs2)
  have "Some e \<notin> set (map failure cs1)" using round1_props(3) [OF both(6)] both(1) by auto
  moreover have "Some e \<notin> set (map failure evs)"
    using commit_no_failure(1) [OF committed_props [OF both(7)]] .
  moreover have "Some e \<notin> set (map failure cs2)" using round2_props(2) [OF both(8)] both(3) by auto
  ultimately show ?thesis using both(4,5) by auto
qed

lemma change_rejected_no_warning:
  assumes "fst (change h loc rep s) = Rejected e"
  shows "\<not> list_ex warning (new_events h loc rep s)"
proof (cases rule: change_cases [of h loc rep s])
  case (hook1 e1 cs1)
  then show ?thesis using calls_no_warning [OF round1_props(1) [OF hook1(4)]] by simp
next
  case (commit e1 cs1 evs)
  then show ?thesis using assms by simp
next
  case (hook2 e1 cs1 evs cs2)
  then show ?thesis
    using calls_no_warning [OF round1_props(1) [OF hook2(6)]]
      commit_no_failure(2) [OF committed_props [OF hook2(7)]]
      calls_no_warning [OF round2_props(1) [OF hook2(8)]] by simp
next
  case (both cs1 evs cs2)
  then show ?thesis using assms by simp
qed

lemma change_commit_failure:
  assumes "fst (round1 h loc rep s) = None" and "fst (committed h loc rep s) = Some e"
  shows "fst (change h loc rep s) = Fulfilled
       \<and> last (log (snd (change h loc rep s))) = Warned e
       \<and> active (snd (change h loc rep s)) = active s"
proof -
  have "active (snd (committed h loc rep s)) = active (snd (snd (round1 h loc rep s)))"
    using routeChange_failed [of h "fst (snd (round1 h loc rep s))"
        "snd (snd (round1 h loc rep s))" e] assms(2)
    by (simp add: committed_def)
  then show ?thesis using assms by (simp add: change_unfold round1_after_hooks)
qed

text \<open>
  C3 (amended). The promise of \<open>change\<close> rejects exactly when a call of a hook registered
  with \<open>afterChange\<close> fails, in the round before the commit or in the round after it, and
  it rejects with that hook's error; a rejection is not logged as a warning. A failure of
  the commit itself (after a first round in which no hook failed) is caught: the promise
  fulfils, the error is the warning logged last, and the active route is left as it was.
  \<open>redirect\<close> is \<open>change\<close> with the replace flag set, so its promise settles the same way.
\<close>

theorem change_settles:
  "(\<forall>e. (fst (change h loc rep s) = Rejected e) =
          (Some e \<in> set (map failure (new_events h loc rep s))))
   \<and> (\<forall>e. fst (change h loc rep s) = Rejected e \<longrightarrow>
          \<not> list_ex warning (new_events h loc rep s))
   \<and> (\<forall>e. fst (round1 h loc rep s) = Some e \<longrightarrow> fst (change h loc rep s) = Rejected e)
   \<and> (\<forall>e. fst (round1 h loc rep s) = None \<longrightarrow> fst (committed h loc rep s) = None \<longrightarrow>
          fst (round2 h loc rep s) = Some e \<longrightarrow> fst (change h loc rep s) = Rejected e)
   \<and> (\<forall>e. fst (round1 h loc rep s) = None \<longrightarrow> fst (committed h loc rep s) = Some e \<longrightarrow>
          fst (change h loc rep s) = Fulfilled
          \<and> last (log (snd (change h loc rep s))) = Warned e
          \<and> active (snd (change h loc rep s)) = active s)
   \<and> redirect h loc s = change h loc True s"
proof -
  have a: "\<forall>e. (fst (change h loc rep s) = Rejected e) =
          (Some e \<in> set (map failure (new_events h loc rep s)))"
    using change_rejected_iff [of h loc rep s] by blast
  have b: "\<forall>e. fst (change h loc rep s) = Rejected e \<longrightarrow>
          \<not> list_ex warning (new_events h loc rep s)"
    using change_rejected_no_warning [of h loc rep s] by blast
  have c: "\<forall>e. fst (round1 h loc rep s) = Some e \<longrightarrow> fst (change h loc rep s) = Rejected e"
    by (simp add: change_unfold)
  have d: "\<forall>e. fst (round1 h loc rep s) = None \<longrightarrow> fst (committed h loc rep s) = None \<longrightarrow>
          fst (round2 h loc rep s) = Some e \<longrightarrow> fst (change h loc rep s) = Rejected e"
    by (simp add: change_unfold)
  have e: "\<forall>e. fst (round1 h loc rep s) = None \<longrightarrow> fst (committed h loc rep s) = Some e \<longrightarrow>
          fst (change h loc rep s) = Fulfilled
          \<and> last (log (snd (change h loc rep s))) = Warned e
          \<and> active (snd (change h loc rep s)) = active s"
    using change_commit_failure [of h loc rep s] by blast
  have f: "redirect h loc s = change h loc True s" by (simp add: redirect_def)
  from a b c d e f show ?thesis by blast
qed

text \<open>Three transitions, evaluated: a hook fails before the commit, after it, and the commit fails.\<close>

lemma hook13_steps:
  "fst (round1 browser ''/x'' True (afterChange 13 (initial True ()))) = Some (Thrown ''hook 13'')"
  by (simp add: round1_def eval_defs Let_def)

lemma hook21_steps:
  "fst (round1 browser ''/x'' True (afterChange 21 (initial True ()))) = None"
  "fst (committed browser ''/x'' True (afterChange 21 (initial True ()))) = None"
  "fst (round2 browser ''/x'' True (afterChange 21 (initial True ()))) = Some (Thrown ''hook 21'')"
  by (simp_all add: round2_def committed_def round1_def eval_defs Let_def)

lemma example_bad_transition:
  "transition_of browser ''/users/42?active=%zz'' True example_users =
     \<lparr>previous = AbstractRoute, next = Some 0, location = ''/users/42?active=%zz'',
      replace = True\<rparr>"
  by (simp add: example_users_eq) (simp add: eval_defs)

lemma example_bad_steps:
  "fst (round1 browser ''/users/42?active=%zz'' True example_users) = None"
  "fst (committed browser ''/users/42?active=%zz'' True example_users) = Some URIError"
  by (simp_all add: committed_def round1_def example_bad_transition)
     (simp_all add: example_users_eq browser_def routeChange_unfold write_phase_cases activate_def
        guard_events_def write_event_def set_prevent_def,
      simp_all add: eval_defs)

theorem change_settles_witness:
  "fst (round1 browser ''/x'' True (afterChange 13 (initial True ()))) = Some (Thrown ''hook 13'')
   \<and> fst (change browser ''/x'' True (afterChange 13 (initial True ()))) = Rejected (Thrown ''hook 13'')
   \<and> \<not> list_ex warning (new_events browser ''/x'' True (afterChange 13 (initial True ())))
   \<and> fst (round1 browser ''/x'' True (afterChange 21 (initial True ()))) = None
   \<and> fst (committed browser ''/x'' True (afterChange 21 (initial True ()))) = None
   \<and> fst (round2 browser ''/x'' True (afterChange 21 (initial True ()))) = Some (Thrown ''hook 21'')
   \<and> fst (change browser ''/x'' True (afterChange 21 (initial True ()))) = Rejected (Thrown ''hook 21'')
   \<and> Some (Thrown ''hook 21'')
       \<in> set (map failure (new_events browser ''/x'' True (afterChange 21 (initial True ()))))
   \<and> fst (round1 browser ''/users/42?active=%zz'' True example_users) = None
   \<and> fst (committed browser ''/users/42?active=%zz'' True example_users) = Some URIError
   \<and> fst (change browser ''/users/42?active=%zz'' True example_users) = Fulfilled
   \<and> last (log (snd (change browser ''/users/42?active=%zz'' True example_users))) = Warned URIError
   \<and> active (snd (change browser ''/users/42?active=%zz'' True example_users)) = active example_users"
proof -
  note a = change_settles [of browser "''/x''" True "afterChange 13 (initial True ())"]
  note b = change_settles [of browser "''/x''" True "afterChange 21 (initial True ())"]
  note c = change_settles [of browser "''/users/42?active=%zz''" True example_users]
  from a hook13_steps
  have r13: "fst (change browser ''/x'' True (afterChange 13 (initial True ()))) = Rejected (Thrown ''hook 13'')"
    by blast
  with a have w13: "\<not> list_ex warning (new_events browser ''/x'' True (afterChange 13 (initial True ())))"
    by blast
  from b hook21_steps
  have r21: "fst (change browser ''/x'' True (afterChange 21 (initial True ()))) = Rejected (Thrown ''hook 21'')"
    by blast
  with b have f21: "Some (Thrown ''hook 21'')
       \<in> set (map failure (new_events browser ''/x'' True (afterChange 21 (initial True ()))))"
    by blast
  from c example_bad_steps
  have bad: "fst (change browser ''/users/42?active=%zz'' True example_users) = Fulfilled
     \<and> last (log (snd (change browser ''/users/42?active=%zz'' True example_users))) = Warned URIError
     \<and> active (snd (change browser ''/users/42?active=%zz'' True example_users)) = active example_users"
    by blast
  from hook13_steps r13 w13 hook21_steps r21 f21 example_bad_steps bad show ?thesis by blast
qed

text \<open>
  C3 as stated fails where a hook fails: with hook 13 registered, the promises of
  \<open>change\<close> and of \<open>redirect\<close> reject, and nothing is logged but the call of the hook.
\<close>

theorem change_rejects:
  "fst (change browser ''/x'' True (afterChange 13 (initial True ()))) = Rejected (Thrown ''hook 13'')
   \<and> fst (redirect browser ''/x'' (afterChange 13 (initial True ()))) = Rejected (Thrown ''hook 13'')
   \<and> log (snd (change browser ''/x'' True (afterChange 13 (initial True ())))) =
       [Called 13 \<lparr>previous = AbstractRoute, next = None, location = ''/x'', replace = True\<rparr>
                  \<lparr>previous = AbstractRoute, next = None, location = ''/x'', replace = True\<rparr>
                  (Some (Thrown ''hook 13''))]"
  by (simp add: eval_defs Let_def)

section \<open>The guard against the router's own URL writes\<close>

lemma run_hooks_prevent:
  assumes "\<forall>f\<in>set fs. \<forall>t r. prevent (options_left (call h f t r)) \<longrightarrow> prevent (options r)"
    and "prevent (options (snd (snd (run_hooks h t fs s))))"
  shows "prevent (options s)"
  using assms
proof (induction fs arbitrary: t s)
  case Nil
  then show ?case by simp
next
  case (Cons f fs)
  let ?r = "call h f t s"
  let ?s1 = "s\<lparr>options := options_left ?r, world := world_left ?r,
               log := log s @ [Called f t (this_left ?r) (thrown ?r)]\<rparr>"
  have step: "prevent (options_left ?r) \<longrightarrow> prevent (options s)" using Cons.prems(1) by simp
  show ?case
  proof (cases "thrown ?r")
    case (Some e)
    then have "prevent (options_left ?r)" using Cons.prems(2) by (simp add: Let_def)
    then show ?thesis using step by simp
  next
    case None
    then have "prevent (options (snd (snd (run_hooks h (this_left ?r) fs ?s1))))"
      using Cons.prems(2) by (simp add: Let_def)
    moreover have "\<forall>f\<in>set fs. \<forall>t r. prevent (options_left (call h f t r)) \<longrightarrow> prevent (options r)"
      using Cons.prems(1) by simp
    ultimately have "prevent (options ?s1)" using Cons.IH by blast
    then show ?thesis using step by simp
  qed
qed

lemma calls_no_url_event:
  assumes "\<forall>c\<in>set cs. \<exists>f a b r. c = Called f a b r \<and> f \<in> set fs"
  shows "\<not> list_ex url_event cs"
  using assms by (fastforce simp: list_ex_iff)

lemma written_guard:
  "replace t \<Longrightarrow>
     \<exists>w. guard_events opts t = [PreventSet True, w, PreventSet False]
        \<and> written w = Some (location t, True)"
  by (simp add: guard_events_def write_event_def)

lemma guard_events_cases:
  "guard_events opts t = []
   \<or> replace t \<and> (\<exists>w. guard_events opts t = [PreventSet True, w, PreventSet False]
                      \<and> written w = Some (location t, True))"
  using written_guard [of t opts] by (cases "replace t") (simp_all add: guard_events_def)

lemma committed_guard:
  assumes nothrow: "\<forall>m l. \<not> write_throws h m l"
    and evs: "log (snd (committed h loc rep s)) = log (snd (snd (round1 h loc rep s))) @ evs"
  shows "prevent (options (snd (committed h loc rep s))) =
           (if replace (fst (snd (round1 h loc rep s))) then False
            else prevent (options (snd (snd (round1 h loc rep s)))))"
    and "\<exists>rest. evs = guard_events (options (snd (snd (round1 h loc rep s))))
                         (fst (snd (round1 h loc rep s))) @ rest
            \<and> \<not> list_ex url_event rest"
proof -
  let ?t1 = "fst (snd (round1 h loc rep s))"
  let ?s1 = "snd (snd (round1 h loc rep s))"
  have nt: "\<not> write_throws h (mode (options ?s1)) (location ?t1)" using nothrow by simp
  from routeChange_prevent [OF nt]
  show "prevent (options (snd (committed h loc rep s))) =
           (if replace ?t1 then False else prevent (options ?s1))"
    by (simp add: committed_def)
  from routeChange_prevent [OF nt] obtain rest where
    "log (snd (routeChange h ?t1 ?s1)) = log ?s1 @ guard_events (options ?s1) ?t1 @ rest"
    "\<not> list_ex url_event rest" by blast
  then have "evs = guard_events (options ?s1) ?t1 @ rest \<and> \<not> list_ex url_event rest"
    using evs by (simp add: committed_def)
  then show "\<exists>rest. evs = guard_events (options ?s1) ?t1 @ rest \<and> \<not> list_ex url_event rest"
    by blast
qed

lemma change_guard:
  assumes hooks: "\<forall>f\<in>set (after_hooks s). \<forall>t r.
                    prevent (options_left (call h f t r)) \<longrightarrow> prevent (options r)"
    and nothrow: "\<forall>m l. \<not> write_throws h m l"
  shows "\<exists>pre guard post.
           new_events h loc rep s = pre @ guard @ post
           \<and> \<not> list_ex url_event (pre @ post)
           \<and> (prevent (options (snd (change h loc rep s))) \<longrightarrow> prevent (options s) \<and> guard = [])
           \<and> (guard = []
               \<or> replace (left_by (transition_of h loc rep s) pre)
                 \<and> (\<exists>w. guard = [PreventSet True, w, PreventSet False]
                        \<and> written w = Some (location (left_by (transition_of h loc rep s) pre), True)))"
proof -
  let ?t = "transition_of h loc rep s"
  let ?t1 = "fst (snd (round1 h loc rep s))"
  let ?s1 = "snd (snd (round1 h loc rep s))"
  let ?s2 = "snd (committed h loc rep s)"
  let ?s3 = "snd (snd (round2 h loc rep s))"
  let ?g = "guard_events (options ?s1) ?t1"
  let ?P = "\<lambda>pre guard post.
           new_events h loc rep s = pre @ guard @ post
           \<and> \<not> list_ex url_event (pre @ post)
           \<and> (prevent (options (snd (change h loc rep s))) \<longrightarrow> prevent (options s) \<and> guard = [])
           \<and> (guard = []
               \<or> replace (left_by ?t pre)
                 \<and> (\<exists>w. guard = [PreventSet True, w, PreventSet False]
                        \<and> written w = Some (location (left_by ?t pre), True)))"
  have p1: "prevent (options ?s1) \<longrightarrow> prevent (options s)"
    using run_hooks_prevent [OF hooks, of "transition_of h loc rep s" s]
    by (auto simp: round1_def)
  have hooks2: "\<forall>f\<in>set (after_hooks ?s2). \<forall>t r.
                    prevent (options_left (call h f t r)) \<longrightarrow> prevent (options r)"
    using hooks by (simp add: committed_after_hooks)
  have p3: "prevent (options ?s3) \<longrightarrow> prevent (options ?s2)"
    using run_hooks_prevent [OF hooks2, of ?t1 ?s2]
    by (auto simp: round2_def)
  have g: "?g = [] \<or> replace ?t1 \<and> (\<exists>w. ?g = [PreventSet True, w, PreventSet False]
                      \<and> written w = Some (location ?t1, True))"
    by (rule guard_events_cases)
  have gne: "?g \<noteq> [] \<Longrightarrow> replace ?t1" by (auto simp: guard_events_def split: if_splits)
  show ?thesis
  proof (cases rule: change_cases [of h loc rep s])
    case (hook1 e cs1)
    have "?P cs1 [] []"
      using hook1(2,3) p1 calls_no_url_event [OF round1_props(1) [OF hook1(4)]] by simp
    then show ?thesis by blast
  next
    case (commit e cs1 evs)
    have l: "left_by ?t cs1 = ?t1" using round1_props(2) [OF commit(5)] .
    have p2: "prevent (options ?s2) = (if replace ?t1 then False else prevent (options ?s1))"
      using committed_guard(1) [OF nothrow commit(6)] .
    obtain rest where rest: "evs = ?g @ rest" "\<not> list_ex url_event rest"
      using committed_guard(2) [OF nothrow commit(6)] by blast
    have fin: "prevent (options (snd (change h loc rep s))) \<longrightarrow> prevent (options s) \<and> ?g = []"
      using commit(3) p2 p1 gne by (auto split: if_splits)
    have "?P cs1 ?g (rest @ [Warned e])"
      using commit(4) rest calls_no_url_event [OF round1_props(1) [OF commit(5)]] fin g l
      by simp
    then show ?thesis by blast
  next
    case (hook2 e cs1 evs cs2)
    have l: "left_by ?t cs1 = ?t1" using round1_props(2) [OF hook2(6)] .
    have p2: "prevent (options ?s2) = (if replace ?t1 then False else prevent (options ?s1))"
      using committed_guard(1) [OF nothrow hook2(7)] .
    obtain rest where rest: "evs = ?g @ rest" "\<not> list_ex url_event rest"
      using committed_guard(2) [OF nothrow hook2(7)] by blast
    have fin: "prevent (options (snd (change h loc rep s))) \<longrightarrow> prevent (options s) \<and> ?g = []"
      using hook2(4) p3 p2 p1 gne by (auto split: if_splits)
    have "?P cs1 ?g (rest @ cs2)"
      using hook2(5) rest calls_no_url_event [OF round1_props(1) [OF hook2(6)]]
        calls_no_url_event [OF round2_props(1) [OF hook2(8)]] fin g l
      by simp
    then show ?thesis by blast
  next
    case (both cs1 evs cs2)
    have l: "left_by ?t cs1 = ?t1" using round1_props(2) [OF both(6)] .
    have p2: "prevent (options ?s2) = (if replace ?t1 then False else prevent (options ?s1))"
      using committed_guard(1) [OF nothrow both(7)] .
    obtain rest where rest: "evs = ?g @ rest" "\<not> list_ex url_event rest"
      using committed_guard(2) [OF nothrow both(7)] by blast
    have fin: "prevent (options (snd (change h loc rep s))) \<longrightarrow> prevent (options s) \<and> ?g = []"
      using both(4) p3 p2 p1 gne by (auto split: if_splits)
    have "?P cs1 ?g (rest @ cs2)"
      using both(5) rest calls_no_url_event [OF round1_props(1) [OF both(6)]]
        calls_no_url_event [OF round2_props(1) [OF both(8)]] fin g l
      by simp
    then show ?thesis by blast
  qed
qed

text \<open>
  C10 (amended). Assume that writing the browser URL does not throw and that no hook
  registered with \<open>afterChange\<close> sets \<^verbatim>\<open>options.prevent\<close>. Then of what a call of
  \<open>change\<close> adds to the log, the entries about the guard and the URL are either none, or
  exactly three consecutive entries: \<open>prevent\<close> set, the URL written, \<open>prevent\<close> cleared.
  The latter happens only when the replace flag of the transition object, as the first
  round of hooks left it, is set; the location written is that of the transition object,
  and \<^verbatim>\<open>options.prevent\<close> is true during the write. The call ends with \<open>prevent\<close> true only
  if it was true at the call and the URL was not written; so a call that starts with
  \<open>prevent\<close> false ends with it false, and \<open>onPopState\<close> is not suppressed after it:
  \<open>onPopState\<close> returns at once exactly when \<open>prevent\<close> is true.
\<close>

theorem prevent_only_during_write:
  assumes hooks: "\<forall>f\<in>set (after_hooks s). \<forall>t r.
                    prevent (options_left (call h f t r)) \<longrightarrow> prevent (options r)"
    and nothrow: "\<forall>m l. \<not> write_throws h m l"
  shows "(\<exists>pre guard post.
            new_events h loc rep s = pre @ guard @ post
            \<and> \<not> list_ex url_event (pre @ post)
            \<and> (prevent (options (snd (change h loc rep s))) \<longrightarrow>
                 prevent (options s) \<and> guard = [])
            \<and> (guard = []
                \<or> replace (left_by (transition_of h loc rep s) pre)
                  \<and> (\<exists>w. guard = [PreventSet True, w, PreventSet False]
                         \<and> written w =
                             Some (location (left_by (transition_of h loc rep s) pre), True))))
       \<and> (\<not> prevent (options s) \<longrightarrow>
            \<not> prevent (options (snd (change h loc rep s)))
            \<and> (\<forall>href hash. onPopState h href hash (snd (change h loc rep s)) \<noteq> None))
       \<and> (\<forall>href hash r. (onPopState h href hash r = None) = prevent (options r))"
proof -
  from change_guard [OF hooks nothrow, of loc rep]
  obtain pre guard post where g:
    "new_events h loc rep s = pre @ guard @ post"
    "\<not> list_ex url_event (pre @ post)"
    "prevent (options (snd (change h loc rep s))) \<longrightarrow> prevent (options s) \<and> guard = []"
    "guard = []
      \<or> replace (left_by (transition_of h loc rep s) pre)
        \<and> (\<exists>w. guard = [PreventSet True, w, PreventSet False]
               \<and> written w = Some (location (left_by (transition_of h loc rep s) pre), True))"
    by blast
  have b: "\<forall>href hash r. (onPopState h href hash r = None) = prevent (options r)"
    by (simp add: onPopState_def)
  have a: "\<not> prevent (options s) \<longrightarrow>
            \<not> prevent (options (snd (change h loc rep s)))
            \<and> (\<forall>href hash. onPopState h href hash (snd (change h loc rep s)) \<noteq> None)"
    using g(3) b by blast
  from g a b show ?thesis by blast
qed

text \<open>
  A transition started without the replace flag in which hook 19 sets \<^verbatim>\<open>this.replace\<close>,
  evaluated.
\<close>

lemma hook19_change:
  "log (snd (change browser ''/x'' False (afterChange 19 (initial True ())))) =
     [Called 19 \<lparr>previous = AbstractRoute, next = None, location = ''/x'', replace = False\<rparr>
                \<lparr>previous = AbstractRoute, next = None, location = ''/x'', replace = True\<rparr> None,
      PreventSet True, PushState ''/x'' True, PreventSet False,
      Activated NoRoute,
      Called 19 \<lparr>previous = AbstractRoute, next = None, location = ''/x'', replace = True\<rparr>
                \<lparr>previous = AbstractRoute, next = None, location = ''/x'', replace = True\<rparr> None]"
  "log (afterChange 19 (initial True ())) = []"
  "after_hooks (afterChange 19 (initial True ())) = [19]"
  "\<not> prevent (options (afterChange 19 (initial True ())))"
  by (simp_all add: eval_defs Let_def)

theorem prevent_only_during_write_witness:
  "after_hooks (afterChange 19 (initial True ())) = [19]
   \<and> (\<forall>t r. prevent (options_left (call browser 19 t r)) = prevent (options r))
   \<and> (\<forall>m l. \<not> write_throws browser m l)
   \<and> \<not> prevent (options (afterChange 19 (initial True ())))
   \<and> \<not> prevent (options (snd (change browser ''/x'' False (afterChange 19 (initial True ())))))
   \<and> onPopState browser ''http://localhost/y'' []
        (snd (change browser ''/x'' False (afterChange 19 (initial True ())))) \<noteq> None
   \<and> new_events browser ''/x'' False (afterChange 19 (initial True ())) =
       [Called 19 \<lparr>previous = AbstractRoute, next = None, location = ''/x'', replace = False\<rparr>
                  \<lparr>previous = AbstractRoute, next = None, location = ''/x'', replace = True\<rparr> None]
       @ [PreventSet True, PushState ''/x'' True, PreventSet False]
       @ [Activated NoRoute,
          Called 19 \<lparr>previous = AbstractRoute, next = None, location = ''/x'', replace = True\<rparr>
                    \<lparr>previous = AbstractRoute, next = None, location = ''/x'', replace = True\<rparr> None]"
proof -
  let ?s = "afterChange 19 (initial True ())"
  have h19: "\<forall>t r. prevent (options_left (call browser 19 t r)) = prevent (options r)"
    by (simp add: browser_def)
  have hooks: "\<forall>f\<in>set (after_hooks ?s). \<forall>t r.
                 prevent (options_left (call browser f t r)) \<longrightarrow> prevent (options r)"
    using h19 by (simp add: hook19_change(3))
  have nothrow: "\<forall>m l. \<not> write_throws browser m l" by (simp add: browser_def)
  have e: "new_events browser ''/x'' False ?s =
       [Called 19 \<lparr>previous = AbstractRoute, next = None, location = ''/x'', replace = False\<rparr>
                  \<lparr>previous = AbstractRoute, next = None, location = ''/x'', replace = True\<rparr> None]
       @ [PreventSet True, PushState ''/x'' True, PreventSet False]
       @ [Activated NoRoute,
          Called 19 \<lparr>previous = AbstractRoute, next = None, location = ''/x'', replace = True\<rparr>
                    \<lparr>previous = AbstractRoute, next = None, location = ''/x'', replace = True\<rparr> None]"
    by (simp add: new_events_def hook19_change(1,2))
  note th = prevent_only_during_write [OF hooks nothrow, of "''/x''" False]
  from th hook19_change(4)
  have p: "\<not> prevent (options (snd (change browser ''/x'' False ?s)))" by blast
  from th p
  have o: "onPopState browser ''http://localhost/y'' [] (snd (change browser ''/x'' False ?s)) \<noteq> None"
    by blast
  from hook19_change(3,4) h19 nothrow p o e show ?thesis by blast
qed

text \<open>
  C10 as stated fails where something other than the commit writes \<^verbatim>\<open>options.prevent\<close>, an
  exported option. Hook 17, registered with \<open>afterChange\<close>, sets it: the call ends with
  \<open>prevent\<close> true, and the next \<^verbatim>\<open>popstate\<close> event is ignored. And where the application
  has set it before a call whose first round fails (hook 13), the call leaves it set.
\<close>

theorem prevent_left_set:
  "prevent (options (snd (redirect browser ''/x'' (afterChange 17 (initial True ())))))
   \<and> log (snd (redirect browser ''/x'' (afterChange 17 (initial True ())))) =
       [Called 17 \<lparr>previous = AbstractRoute, next = None, location = ''/x'', replace = True\<rparr>
                  \<lparr>previous = AbstractRoute, next = None, location = ''/x'', replace = True\<rparr> None,
        PreventSet True, PushState ''/x'' True, PreventSet False,
        Activated NoRoute,
        Called 17 \<lparr>previous = AbstractRoute, next = None, location = ''/x'', replace = True\<rparr>
                  \<lparr>previous = AbstractRoute, next = None, location = ''/x'', replace = True\<rparr> None]
   \<and> onPopState browser ''http://localhost/y'' []
        (snd (redirect browser ''/x'' (afterChange 17 (initial True ())))) = None
   \<and> prevent (options (snd (redirect browser ''/x''
        ((afterChange 13 (initial True ()))
           \<lparr>options := \<lparr>mode = ''history'', base = [], prevent = True\<rparr>\<rparr>))))"
  by (simp add: eval_defs Let_def onPopState_def)

section \<open>Facts about the string operations\<close>

lemma replace_first_absent: "\<not> sublist pat s \<Longrightarrow> replace_first pat rep s = s"
proof (induction s)
  case Nil
  then show ?case by simp
next
  case (Cons c cs)
  then have "\<not> prefix pat (c # cs)" "\<not> sublist pat cs"
    by (auto simp: sublist_Cons_right)
  with Cons.IH show ?case by simp
qed


lemma split_on_first:
  "(case split_on d s of [] \<Rightarrow> [] | x # _ \<Rightarrow> x) = takeWhile (\<lambda>c. c \<noteq> d) s"
  by (induction s) (auto split: list.splits)

lemma split_on_not_Nil [simp]: "split_on d s \<noteq> []"
  by (induction s) (auto split: list.splits)

lemma concat_split_on: "concat (map ((#) d) (split_on d s)) = d # s"
  by (induction s) (auto split: list.splits)

lemma split_on_no_empty:
  "s \<noteq> [] \<Longrightarrow> last s \<noteq> d \<Longrightarrow> \<not> sublist [d, d] s \<Longrightarrow>
     [] \<notin> set (tl (split_on d s)) \<and> (hd s \<noteq> d \<longrightarrow> hd (split_on d s) \<noteq> [])"
proof (induction s)
  case Nil
  then show ?case by simp
next
  case (Cons c cs)
  show ?case
  proof (cases cs)
    case Nil
    then show ?thesis using Cons.prems by simp
  next
    case (Cons c2 cs')
    have ns: "\<not> sublist [d, d] cs" using Cons.prems(3) by (simp add: sublist_Cons_right)
    have lst: "last cs \<noteq> d" using Cons.prems(2) Cons by simp
    have ih: "[] \<notin> set (tl (split_on d cs))" "hd cs \<noteq> d \<longrightarrow> hd (split_on d cs) \<noteq> []"
      using Cons.IH [OF _ lst ns] Cons by simp_all
    show ?thesis
    proof (cases "c = d")
      case True
      then have "c2 \<noteq> d" using Cons.prems(3) Cons by (auto simp: sublist_Cons_right)
      then have "hd (split_on d cs) \<noteq> []" using ih(2) Cons by simp
      then have "[] \<notin> set (split_on d cs)" using ih(1)
        by (cases "split_on d cs") auto
      then show ?thesis using True by simp
    next
      case False
      then show ?thesis using ih(1) by (cases "split_on d cs") auto
    qed
  qed
qed

lemma strip_leading_head:
  "strip_leading_slashes s = [] \<or> hd (strip_leading_slashes s) \<noteq> CHR ''/''"
  unfolding strip_leading_slashes_def using hd_dropWhile [of "\<lambda>c. c = CHR ''/''" s] by blast

lemma strip_trailing_last:
  "strip_trailing_slashes s = [] \<or> last (strip_trailing_slashes s) \<noteq> CHR ''/''"
proof -
  let ?r = "dropWhile (\<lambda>c. c = CHR ''/'') (rev s)"
  have "?r = [] \<or> hd ?r \<noteq> CHR ''/''" using hd_dropWhile [of "\<lambda>c. c = CHR ''/''" "rev s"] by blast
  then show ?thesis by (auto simp: strip_trailing_slashes_def last_rev)
qed

lemma sublist_strip_leading: "sublist (strip_leading_slashes s) s"
  by (simp add: strip_leading_slashes_def)

lemma sublist_strip_trailing: "sublist (strip_trailing_slashes s) s"
proof -
  have "sublist (dropWhile (\<lambda>c. c = CHR ''/'') (rev s)) (rev s)" by simp
  then show ?thesis by (simp add: strip_trailing_slashes_def sublist_rev_left)
qed

lemma strip_leading_keeps_last:
  "strip_leading_slashes s \<noteq> [] \<Longrightarrow> last (strip_leading_slashes s) = last s"
proof -
  assume a: "strip_leading_slashes s \<noteq> []"
  have "s = takeWhile (\<lambda>c. c = CHR ''/'') s @ strip_leading_slashes s"
    by (simp add: strip_leading_slashes_def)
  then have "last s = last (takeWhile (\<lambda>c. c = CHR ''/'') s @ strip_leading_slashes s)" by simp
  also have "\<dots> = last (strip_leading_slashes s)" using a by simp
  finally show ?thesis by simp
qed

lemma strip_trailing_fixed:
  "s = [] \<or> last s \<noteq> CHR ''/'' \<Longrightarrow> strip_trailing_slashes s = s"
  by (cases s rule: rev_cases) (auto simp: strip_trailing_slashes_def)

lemma strip_trailing_append:
  "c \<noteq> CHR ''/'' \<Longrightarrow> strip_trailing_slashes (a @ c # w) = a @ c # strip_trailing_slashes w"
  by (simp add: strip_trailing_slashes_def dropWhile_append3)

lemma strip_leading_append:
  "c \<noteq> CHR ''/'' \<Longrightarrow> strip_leading_slashes (a @ c # w) = strip_leading_slashes a @ c # w"
  by (simp add: strip_leading_slashes_def dropWhile_append3)

section \<open>The form of a normalised path\<close>

lemma replace_query_slash:
  "CHR ''?'' \<notin> set u \<Longrightarrow>
     \<exists>w. replace_first ''/?'' ''?'' (u @ CHR ''?'' # v) =
           (if u \<noteq> [] \<and> last u = CHR ''/'' then butlast u else u) @ CHR ''?'' # w"
proof (induction u)
  case Nil
  then show ?case by simp
next
  case (Cons c u)
  then have nq: "CHR ''?'' \<notin> set u" "c \<noteq> CHR ''?''" by auto
  show ?case
  proof (cases u)
    case Nil
    then show ?thesis using nq by auto
  next
    case (Cons c2 u')
    then have "c2 \<noteq> CHR ''?''" using nq by auto
    then have np: "\<not> prefix ''/?'' (c # u @ CHR ''?'' # v)" using Cons by simp
    from Cons.IH [OF nq(1)] obtain w where
      "replace_first ''/?'' ''?'' (u @ CHR ''?'' # v) =
         (if u \<noteq> [] \<and> last u = CHR ''/'' then butlast u else u) @ CHR ''?'' # w" by blast
    then show ?thesis using np Cons by auto
  qed
qed

lemma replace_slashes_before_query:
  "\<not> sublist ''//'' a \<Longrightarrow>
     replace_first ''//'' ''/'' (a @ CHR ''?'' # z) = a @ CHR ''?'' # replace_first ''//'' ''/'' z"
proof (induction a)
  case Nil
  then show ?case by simp
next
  case (Cons c a)
  then have ns: "\<not> sublist ''//'' a" "\<not> prefix ''//'' (c # a)"
    by (auto simp: sublist_Cons_right)
  then have np: "\<not> prefix ''//'' (c # (a @ CHR ''?'' # z))" by (cases a) auto
  have "replace_first ''//'' ''/'' (c # (a @ CHR ''?'' # z)) =
          c # replace_first ''//'' ''/'' (a @ CHR ''?'' # z)"
    by (subst replace_first.simps) (simp only: np if_False)
  with Cons.IH [OF ns(1)] show ?case by simp
qed

lemma sublist_trans: "sublist xs ys \<Longrightarrow> sublist ys zs \<Longrightarrow> sublist xs zs"
proof -
  assume "sublist xs ys" "sublist ys zs"
  then obtain p s p' s' where "ys = p @ xs @ s" "zs = p' @ ys @ s'"
    unfolding sublist_def by blast
  then have "zs = (p' @ p) @ xs @ (s @ s')" by simp
  then show ?thesis unfolding sublist_def by blast
qed

text \<open>The slash-free core of the part before the query.\<close>

lemma core_facts:
  assumes "\<not> sublist ''//'' u"
  defines "core \<equiv> strip_leading_slashes (strip_trailing_slashes u)"
  shows "\<not> sublist ''//'' (CHR ''/'' # core)"
    and "core = [] \<or> (hd core \<noteq> CHR ''/'' \<and> last core \<noteq> CHR ''/'')"
    and "set core \<subseteq> set u"
proof -
  have sub: "sublist core u"
    unfolding core_def using sublist_strip_leading sublist_strip_trailing sublist_trans by blast
  have h: "core = [] \<or> hd core \<noteq> CHR ''/''" unfolding core_def by (rule strip_leading_head)
  have "\<not> sublist ''//'' core" using sub assms(1) sublist_trans by blast
  moreover have "\<not> prefix ''//'' (CHR ''/'' # core)" using h by (cases core) auto
  ultimately show "\<not> sublist ''//'' (CHR ''/'' # core)" by (simp add: sublist_Cons_right)
  have "core \<noteq> [] \<Longrightarrow> last core \<noteq> CHR ''/''"
  proof -
    assume ne: "core \<noteq> []"
    then have "last core = last (strip_trailing_slashes u)"
      unfolding core_def by (rule strip_leading_keeps_last)
    moreover have "strip_trailing_slashes u \<noteq> []" using ne by (auto simp: core_def strip_leading_slashes_def)
    ultimately show ?thesis using strip_trailing_last [of u] by auto
  qed
  with h show "core = [] \<or> (hd core \<noteq> CHR ''/'' \<and> last core \<noteq> CHR ''/'')" by blast
  show "set core \<subseteq> set u" using sub by (auto simp: sublist_def)
qed

lemma strip_one_trailing:
  assumes "\<not> sublist ''//'' u"
  shows "(if u \<noteq> [] \<and> last u = CHR ''/'' then butlast u else u) = strip_trailing_slashes u"
proof (cases "u \<noteq> [] \<and> last u = CHR ''/''")
  case True
  then obtain b where u: "u = b @ ''/''" by (metis append_butlast_last_id)
  have "b = [] \<or> last b \<noteq> CHR ''/''"
  proof (rule ccontr)
    assume "\<not> (b = [] \<or> last b \<noteq> CHR ''/'')"
    then obtain b' where "b = b' @ ''/''" by (metis append_butlast_last_id)
    then have "u = b' @ ''//'' @ []" using u by simp
    then have "sublist ''//'' u" unfolding sublist_def by blast
    with assms show False by simp
  qed
  then have "strip_trailing_slashes b = b" by (rule strip_trailing_fixed)
  then have "strip_trailing_slashes u = b" using u by (simp add: strip_trailing_slashes_def)
  then show ?thesis using True u by simp
next
  case False
  then have "strip_trailing_slashes u = u" by (intro strip_trailing_fixed) auto
  then show ?thesis using False by auto
qed

lemma takeWhile_before_query:
  "CHR ''?'' \<notin> set a \<Longrightarrow> takeWhile (\<lambda>c. c \<noteq> CHR ''?'') (a @ CHR ''?'' # z) = a"
  by (induction a) auto

lemma split_at_query:
  "CHR ''?'' \<in> set p \<Longrightarrow> \<exists>v. p = takeWhile (\<lambda>c. c \<noteq> CHR ''?'') p @ CHR ''?'' # v"
  by (induction p) auto

lemma normalizePath_dropped:
  assumes "\<not> sublist ''//'' (takeWhile (\<lambda>c. c \<noteq> CHR ''?'')
            (replace_first (base opts) [] (replace_first (origin h) [] x)))"
  shows "normalizePath h opts x True =
           CHR ''/'' # strip_leading_slashes (strip_trailing_slashes
             (takeWhile (\<lambda>c. c \<noteq> CHR ''?'')
                (replace_first (base opts) [] (replace_first (origin h) [] x))))"
proof -
  define p2 where "p2 = replace_first (base opts) [] (replace_first (origin h) [] x)"
  define u where "u = takeWhile (\<lambda>c. c \<noteq> CHR ''?'') p2"
  define core where "core = strip_leading_slashes (strip_trailing_slashes u)"
  have ns: "\<not> sublist ''//'' u" using assms by (simp add: u_def p2_def)
  note cf = core_facts [OF ns, folded core_def]
  have nq: "CHR ''?'' \<notin> set u" unfolding u_def by (auto dest: set_takeWhileD)
  then have nqc: "CHR ''?'' \<notin> set (CHR ''/'' # core)" using cf(3) by auto
  have np: "normalizePath h opts x True =
      takeWhile (\<lambda>c. c \<noteq> CHR ''?'')
        (replace_first ''//'' ''/'' (CHR ''/'' #
           strip_leading_slashes (strip_trailing_slashes (replace_first ''/?'' ''?'' p2))))"
    unfolding normalizePath_def Let_def split_on_first p2_def by simp
  have "normalizePath h opts x True = CHR ''/'' # core"
  proof (cases "CHR ''?'' \<in> set p2")
    case False
    then have up: "u = p2" by (auto simp: u_def takeWhile_eq_all_conv)
    have "\<not> sublist ''/?'' p2" using False by (auto simp: sublist_def)
    then have r3: "replace_first ''/?'' ''?'' p2 = p2" by (rule replace_first_absent)
    have r6: "replace_first ''//'' ''/'' (CHR ''/'' # core) = CHR ''/'' # core"
      using cf(1) by (rule replace_first_absent)
    have tw: "takeWhile (\<lambda>c. c \<noteq> CHR ''?'') (CHR ''/'' # core) = CHR ''/'' # core"
      using nqc by (auto simp: takeWhile_eq_all_conv)
    have "normalizePath h opts x True =
        takeWhile (\<lambda>c. c \<noteq> CHR ''?'') (replace_first ''//'' ''/'' (CHR ''/'' # core))"
      by (simp only: np r3 core_def up)
    then show ?thesis by (simp only: r6 tw)
  next
    case True
    then obtain v where p2: "p2 = u @ CHR ''?'' # v"
      unfolding u_def using split_at_query by blast
    from replace_query_slash [OF nq, of v] obtain w0 where
      "replace_first ''/?'' ''?'' (u @ CHR ''?'' # v) =
         (if u \<noteq> [] \<and> last u = CHR ''/'' then butlast u else u) @ CHR ''?'' # w0" by blast
    then have p3: "replace_first ''/?'' ''?'' p2 = strip_trailing_slashes u @ CHR ''?'' # w0"
      by (simp only: p2 strip_one_trailing [OF ns])
    have q: "CHR ''?'' \<noteq> CHR ''/''" by simp
    have s4: "strip_trailing_slashes (strip_trailing_slashes u @ CHR ''?'' # w0) =
        strip_trailing_slashes u @ CHR ''?'' # strip_trailing_slashes w0"
      using q by (rule strip_trailing_append)
    have s5: "strip_leading_slashes (strip_trailing_slashes u @ CHR ''?'' # strip_trailing_slashes w0) =
        core @ CHR ''?'' # strip_trailing_slashes w0"
      unfolding core_def using q by (rule strip_leading_append)
    have r6: "replace_first ''//'' ''/'' ((CHR ''/'' # core) @ CHR ''?'' # strip_trailing_slashes w0) =
        (CHR ''/'' # core) @ CHR ''?'' # replace_first ''//'' ''/'' (strip_trailing_slashes w0)"
      using cf(1) by (rule replace_slashes_before_query)
    have "normalizePath h opts x True =
        takeWhile (\<lambda>c. c \<noteq> CHR ''?'')
          (replace_first ''//'' ''/'' ((CHR ''/'' # core) @ CHR ''?'' # strip_trailing_slashes w0))"
      by (simp only: np p3 s4 s5 append_Cons)
    also have "\<dots> = CHR ''/'' # core"
      unfolding r6 using nqc by (rule takeWhile_before_query)
    finally show ?thesis .
  qed
  then show ?thesis by (simp only: core_def u_def p2_def)
qed

lemma path_form_core:
  assumes "\<not> sublist ''//'' (CHR ''/'' # core)"
    and "core = [] \<or> (hd core \<noteq> CHR ''/'' \<and> last core \<noteq> CHR ''/'')"
  shows "path_form (CHR ''/'' # core)"
proof (cases "core = []")
  case True
  then show ?thesis by (simp add: path_form_def)
next
  case False
  have ns: "\<not> sublist ''//'' core" using assms(1) by (simp add: sublist_Cons_right)
  from split_on_no_empty [OF False, of "CHR ''/''"] assms(2) False ns
  have "[] \<notin> set (tl (split_on (CHR ''/'') core))" "hd (split_on (CHR ''/'') core) \<noteq> []"
    by auto
  then have ne: "[] \<notin> set (split_on (CHR ''/'') core)"
    by (cases "split_on (CHR ''/'') core") auto
  then have "filter (\<lambda>x. x \<noteq> []) (split_on (CHR ''/'') core) = split_on (CHR ''/'') core"
    by (auto simp: filter_id_conv)
  then have seg: "segments (CHR ''/'' # core) = split_on (CHR ''/'') core"
    by (simp add: segments_def)
  show ?thesis using seg concat_split_on [of "CHR ''/''" core] by (simp add: path_form_def)
qed

lemma normalizePath_head:
  "\<exists>z. normalizePath h opts x q = CHR ''/'' # z \<and> (z = [] \<or> hd z \<noteq> CHR ''/'')
       \<and> (q \<longrightarrow> CHR ''?'' \<notin> set z)"
proof -
  define p5 where "p5 = strip_leading_slashes (strip_trailing_slashes
      (replace_first ''/?'' ''?'' (replace_first (base opts) [] (replace_first (origin h) [] x))))"
  define w where "w = replace_first ''//'' ''/'' p5"
  have h5: "p5 = [] \<or> hd p5 \<noteq> CHR ''/''" unfolding p5_def by (rule strip_leading_head)
  then have p6: "replace_first ''//'' ''/'' (CHR ''/'' # p5) = CHR ''/'' # w"
    unfolding w_def by (cases p5) auto
  have hw: "w = [] \<or> hd w \<noteq> CHR ''/''" using h5 unfolding w_def by (cases p5) auto
  have "normalizePath h opts x q =
      (if q then takeWhile (\<lambda>c. c \<noteq> CHR ''?'') (replace_first ''//'' ''/'' (CHR ''/'' # p5))
       else replace_first ''//'' ''/'' (CHR ''/'' # p5))"
    unfolding normalizePath_def Let_def split_on_first p5_def by simp
  then have np: "normalizePath h opts x q =
      (if q then takeWhile (\<lambda>c. c \<noteq> CHR ''?'') (CHR ''/'' # w) else CHR ''/'' # w)"
    by (simp only: p6)
  show ?thesis
  proof (cases q)
    case False
    then show ?thesis using np hw by simp
  next
    case True
    define z where "z = takeWhile (\<lambda>c. c \<noteq> CHR ''?'') w"
    have "normalizePath h opts x q = CHR ''/'' # z" using np True by (simp add: z_def)
    moreover have "z = [] \<or> hd z \<noteq> CHR ''/''" using hw unfolding z_def by (cases w) auto
    moreover have "CHR ''?'' \<notin> set z" unfolding z_def by (auto dest: set_takeWhileD)
    ultimately show ?thesis by blast
  qed
qed

text \<open>
  C5 (amended). With the query dropped, the result of \<open>normalizePath\<close> always starts with
  exactly one slash and holds no \<open>?\<close>. If what is left of the input once the origin and the
  base are removed has no two adjacent slashes before its first \<open>?\<close>, the result is \<^verbatim>\<open>/\<close> or
  of the form \<^verbatim>\<open>/segment(/segment)*\<close> with non-empty segments, hence without a trailing
  slash. (For other inputs an empty segment or a trailing slash can remain.)
\<close>

theorem normalizePath_form:
  "take 1 (normalizePath h opts x True) = ''/''
   \<and> take 2 (normalizePath h opts x True) \<noteq> ''//''
   \<and> CHR ''?'' \<notin> set (normalizePath h opts x True)
   \<and> (\<not> sublist ''//'' (takeWhile (\<lambda>c. c \<noteq> CHR ''?'')
            (replace_first (base opts) [] (replace_first (origin h) [] x)))
        \<longrightarrow> path_form (normalizePath h opts x True))"
proof -
  obtain z where z: "normalizePath h opts x True = CHR ''/'' # z"
    "z = [] \<or> hd z \<noteq> CHR ''/''" "CHR ''?'' \<notin> set z"
    using normalizePath_head [of h opts x True] by auto
  have a: "take 1 (normalizePath h opts x True) = ''/''" using z(1) by simp
  have b: "take 2 (normalizePath h opts x True) \<noteq> ''//''" using z(1,2) by (cases z) auto
  have c: "CHR ''?'' \<notin> set (normalizePath h opts x True)" using z(1,3) by simp
  have d: "path_form (normalizePath h opts x True)"
    if ns: "\<not> sublist ''//'' (takeWhile (\<lambda>c. c \<noteq> CHR ''?'')
            (replace_first (base opts) [] (replace_first (origin h) [] x)))"
  proof -
    note cf = core_facts [OF ns]
    show ?thesis unfolding normalizePath_dropped [OF ns] using cf(1,2) by (rule path_form_core)
  qed
  from a b c d show ?thesis by blast
qed

theorem normalizePath_form_witness:
  "\<not> sublist ''//'' (takeWhile (\<lambda>c. c \<noteq> CHR ''?'')
        (replace_first (base (options (initial True ()))) []
           (replace_first (origin browser) [] ''http://localhost/users/42/?active=true'')))
   \<and> path_form (normalizePath browser (options (initial True ()))
         ''http://localhost/users/42/?active=true'' True)
   \<and> normalizePath browser (options (initial True ()))
         ''http://localhost/users/42/?active=true'' True = ''/users/42''"
proof -
  have a: "\<not> sublist ''//'' (takeWhile (\<lambda>c. c \<noteq> CHR ''?'')
        (replace_first (base (options (initial True ()))) []
           (replace_first (origin browser) [] ''http://localhost/users/42/?active=true'')))"
    by (simp add: initial_def browser_def sublist_Cons_right)
  have b: "normalizePath browser (options (initial True ()))
         ''http://localhost/users/42/?active=true'' True = ''/users/42''"
    by (simp add: eval_defs)
  from normalizePath_form [of browser "options (initial True ())"
      "''http://localhost/users/42/?active=true''"] a b
  show ?thesis by blast
qed

text \<open>
  C5 as stated fails: \<^verbatim>\<open>a///b\<close> keeps an empty segment and \<^verbatim>\<open>a//?b\<close> keeps a trailing
  slash.
\<close>

theorem normalizePath_keeps_empty_segment:
  "normalizePath browser (options (initial True ())) ''a///b'' True = ''/a//b''
   \<and> \<not> path_form (normalizePath browser (options (initial True ())) ''a///b'' True)
   \<and> normalizePath browser (options (initial True ())) ''a//?b'' True = ''/a/''
   \<and> \<not> path_form (normalizePath browser (options (initial True ())) ''a//?b'' True)"
  by (simp add: eval_defs path_form_def)

section \<open>Normalising twice\<close>








section \<open>Compiling a template\<close>

lemma upper_cases: "upper c = c \<or> upper c \<in> set upper_letters"
proof (cases "map_of (zip lower_letters upper_letters) c")
  case None
  then show ?thesis by (simp add: upper_def)
next
  case (Some u)
  then have "(c, u) \<in> set (zip lower_letters upper_letters)" by (rule map_of_SomeD)
  then have "u \<in> set upper_letters" by (rule set_zip_rightD)
  then show ?thesis using Some by (simp add: upper_def)
qed

lemma upper_slash [simp]: "upper c = CHR ''/'' \<longleftrightarrow> c = CHR ''/''"
proof
  assume a: "upper c = CHR ''/''"
  have "CHR ''/'' \<notin> set upper_letters" by (simp add: upper_letters_def)
  then show "c = CHR ''/''" using a upper_cases [of c] by auto
next
  assume "c = CHR ''/''"
  then show "upper c = CHR ''/''" by (simp add: upper_def lower_letters_def upper_letters_def)
qed

lemma upper_slash_self [simp]: "upper (CHR ''/'') = CHR ''/''"
  by simp

lemma slash_upper [simp]: "CHR ''/'' = upper c \<longleftrightarrow> c = CHR ''/''"
  by (metis upper_slash)

lemma alpha_not_special:
  "is_alpha c \<Longrightarrow> c \<noteq> CHR ''/'' \<and> c \<noteq> CHR '':'' \<and> c \<notin> set syntax_chars"
  by (auto simp: is_alpha_def lower_letters_def upper_letters_def syntax_chars_def)

lemma slash_not_alpha [simp]: "\<not> is_alpha (CHR ''/'')"
  using alpha_not_special by blast

text \<open>Replacing the placeholders, segment by segment.\<close>

lemma replace_params_literal:
  "CHR '':'' \<notin> set t \<Longrightarrow> replace_params (t @ rest) = t @ replace_params rest"
  by (induction t) auto

lemma replace_params_param:
  assumes "n \<noteq> []" "list_all is_alpha n" "rest = [] \<or> \<not> is_alpha (hd rest)"
  shows "replace_params (CHR '':'' # n @ rest) = ''([^/]+)'' @ replace_params rest"
proof -
  have tw: "takeWhile is_alpha (n @ rest) = n"
    using assms(2,3) by (cases rest) (auto simp: list_all_iff)
  have dw: "dropWhile is_alpha (n @ rest) = rest"
    using assms(2,3) by (cases rest) (auto simp: list_all_iff)
  show ?thesis using tw dw assms(1) by (subst replace_params.simps) simp
qed

lemma replace_params_segments:
  "\<forall>sg\<in>set segs. valid_segment sg \<Longrightarrow>
     replace_params (concat (map (\<lambda>sg. CHR ''/'' # render_segment sg) segs)) =
       concat (map (\<lambda>sg. CHR ''/'' # regex_segment sg) segs)"
proof (induction segs)
  case Nil
  then show ?case by simp
next
  case (Cons sg segs)
  let ?rest = "concat (map (\<lambda>sg. CHR ''/'' # render_segment sg) segs)"
  have ih: "replace_params ?rest = concat (map (\<lambda>sg. CHR ''/'' # regex_segment sg) segs)"
    using Cons by simp
  have hd_rest: "?rest = [] \<or> \<not> is_alpha (hd ?rest)" by (cases segs) auto
  have sl: "replace_params (CHR ''/'' # render_segment sg @ ?rest) =
      CHR ''/'' # replace_params (render_segment sg @ ?rest)"
    by (subst replace_params.simps) simp
  show ?case
  proof (cases sg)
    case (Param n)
    then have v: "n \<noteq> []" "list_all is_alpha n" using Cons.prems by auto
    show ?thesis using Param sl ih replace_params_param [OF v hd_rest] by simp
  next
    case (Literal t)
    then have "CHR '':'' \<notin> set t" using Cons.prems by (auto simp: list_all_iff)
    then show ?thesis using Literal sl ih replace_params_literal [of t ?rest] by simp
  qed
qed

text \<open>Reading the pattern text, segment by segment.\<close>

lemma quantifier_none:
  "rest = [] \<or> (hd rest \<noteq> CHR ''*'' \<and> hd rest \<noteq> CHR ''+'') \<Longrightarrow> quantifier rest = (Once, rest)"
  by (cases rest) auto

lemma parse_char:
  assumes "c \<notin> set syntax_chars"
    and "rest = [] \<or> (hd rest \<noteq> CHR ''*'' \<and> hd rest \<noteq> CHR ''+'')"
  shows "parse_items (c # rest) = map_option ((#) (Lit c, Once)) (parse_items rest)"
proof -
  have "c \<noteq> CHR ''(''" "c \<noteq> CHR ''.''" using assms(1) by (auto simp: syntax_chars_def)
  then show ?thesis
    using assms(1) quantifier_none [OF assms(2)] by (subst parse_items.simps) simp
qed

lemma parse_group:
  assumes "rest = [] \<or> (hd rest \<noteq> CHR ''*'' \<and> hd rest \<noteq> CHR ''+'')"
  shows "parse_items (''([^/]+)'' @ rest) = map_option ((#) (NotSlash, Plus)) (parse_items rest)"
  using quantifier_none [OF assms] by simp

lemma parse_literal:
  assumes "list_all (\<lambda>c. c \<notin> set syntax_chars) t"
    and "rest = [] \<or> (hd rest \<noteq> CHR ''*'' \<and> hd rest \<noteq> CHR ''+'')"
  shows "parse_items (t @ rest) =
           map_option ((@) (map (\<lambda>c. (Lit c, Once)) t)) (parse_items rest)"
  using assms(1)
proof (induction t)
  case Nil
  show ?case by (simp add: option.map_ident)
next
  case (Cons c t)
  then have c: "c \<notin> set syntax_chars" and t: "list_all (\<lambda>c. c \<notin> set syntax_chars) t" by auto
  have nx: "t @ rest = [] \<or> (hd (t @ rest) \<noteq> CHR ''*'' \<and> hd (t @ rest) \<noteq> CHR ''+'')"
  proof (cases t)
    case Nil
    then show ?thesis using assms(2) by simp
  next
    case (Cons d t')
    then have "d \<notin> set syntax_chars" using t by simp
    then show ?thesis using Cons by (auto simp: syntax_chars_def)
  qed
  have "parse_items ((c # t) @ rest) = map_option ((#) (Lit c, Once)) (parse_items (t @ rest))"
    using parse_char [OF c nx] by simp
  then show ?case using Cons.IH [OF t] by (simp add: option.map_comp comp_def)
qed

lemma slash_plain: "CHR ''/'' \<notin> set syntax_chars"
  by (simp add: syntax_chars_def)

lemma parse_segments:
  "\<forall>sg\<in>set segs. valid_segment sg \<Longrightarrow>
     parse_items (concat (map (\<lambda>sg. CHR ''/'' # regex_segment sg) segs)) =
       Some (concat (map seg_items segs))"
proof (induction segs)
  case Nil
  then show ?case by simp
next
  case (Cons sg segs)
  let ?rest = "concat (map (\<lambda>sg. CHR ''/'' # regex_segment sg) segs)"
  have ih: "parse_items ?rest = Some (concat (map seg_items segs))" using Cons by simp
  have nq: "?rest = [] \<or> (hd ?rest \<noteq> CHR ''*'' \<and> hd ?rest \<noteq> CHR ''+'')"
    by (cases segs) auto
  show ?case
  proof (cases sg)
    case (Param n)
    have "parse_items (CHR ''/'' # ''([^/]+)'' @ ?rest) =
        map_option ((#) (Lit (CHR ''/''), Once)) (parse_items (''([^/]+)'' @ ?rest))"
      by (rule parse_char [OF slash_plain]) simp
    then show ?thesis using Param parse_group [OF nq] ih by simp
  next
    case (Literal t)
    then have t: "list_all (\<lambda>c. c \<notin> set syntax_chars) t" "t \<noteq> []"
      using Cons.prems by (auto simp: list_all_iff)
    have "hd (t @ ?rest) \<notin> set syntax_chars" using t by (cases t) auto
    then have "t @ ?rest = [] \<or> (hd (t @ ?rest) \<noteq> CHR ''*'' \<and> hd (t @ ?rest) \<noteq> CHR ''+'')"
      by (auto simp: syntax_chars_def)
    then have "parse_items (CHR ''/'' # t @ ?rest) =
        map_option ((#) (Lit (CHR ''/''), Once)) (parse_items (t @ ?rest))"
      by (rule parse_char [OF slash_plain])
    then show ?thesis using Literal parse_literal [OF t(1) nq] ih by simp
  qed
qed

text \<open>What the pattern of a segment matches.\<close>

lemma matches_slash:
  "matches ((Lit (CHR ''/''), Once) # r) u \<longleftrightarrow> (\<exists>u1. u = CHR ''/'' # u1 \<and> matches r u1)"
  by (cases u) auto

lemma matches_literal:
  "matches (map (\<lambda>c. (Lit c, Once)) t @ r) s \<longleftrightarrow>
     (\<exists>x s'. s = x @ s' \<and> map upper x = map upper t \<and> matches r s')"
proof (induction t arbitrary: s)
  case Nil
  then show ?case by simp
next
  case (Cons c t)
  show ?case
  proof (cases s)
    case Nil
    then show ?thesis by simp
  next
    case (Cons d s0)
    have "matches (map (\<lambda>c. (Lit c, Once)) (c # t) @ r) s \<longleftrightarrow>
        upper c = upper d \<and> matches (map (\<lambda>c. (Lit c, Once)) t @ r) s0"
      using Cons by simp
    also have "\<dots> \<longleftrightarrow> upper c = upper d \<and>
        (\<exists>x s'. s0 = x @ s' \<and> map upper x = map upper t \<and> matches r s')"
      using Cons.IH by simp
    also have "\<dots> \<longleftrightarrow> (\<exists>x s'. s = x @ s' \<and> map upper x = map upper (c # t) \<and> matches r s')"
    proof
      assume "upper c = upper d \<and> (\<exists>x s'. s0 = x @ s' \<and> map upper x = map upper t \<and> matches r s')"
      then obtain x s' where "upper c = upper d" "s0 = x @ s'" "map upper x = map upper t" "matches r s'"
        by blast
      then have "s = (d # x) @ s' \<and> map upper (d # x) = map upper (c # t) \<and> matches r s'"
        using Cons by simp
      then show "\<exists>x s'. s = x @ s' \<and> map upper x = map upper (c # t) \<and> matches r s'" by blast
    next
      assume "\<exists>x s'. s = x @ s' \<and> map upper x = map upper (c # t) \<and> matches r s'"
      then obtain x s' where x: "s = x @ s'" "map upper x = map upper (c # t)" "matches r s'" by blast
      then obtain e x' where e: "x = e # x'" by (cases x) auto
      then have "d = e" "s0 = x' @ s'" using x(1) Cons by auto
      then show "upper c = upper d \<and> (\<exists>x s'. s0 = x @ s' \<and> map upper x = map upper t \<and> matches r s')"
        using x e by auto
    qed
    finally show ?thesis .
  qed
qed

lemma matches_star:
  "matches ((NotSlash, Star) # r) s \<longleftrightarrow>
     (\<exists>x s'. s = x @ s' \<and> CHR ''/'' \<notin> set x \<and> matches r s')"
proof (induction s)
  case Nil
  then show ?case by simp
next
  case (Cons d s)
  show ?case
  proof
    assume "matches ((NotSlash, Star) # r) (d # s)"
    then consider "matches r (d # s)" | "d \<noteq> CHR ''/''" "matches ((NotSlash, Star) # r) s" by auto
    then show "\<exists>x s'. d # s = x @ s' \<and> CHR ''/'' \<notin> set x \<and> matches r s'"
    proof cases
      case 1
      then have "d # s = [] @ (d # s) \<and> CHR ''/'' \<notin> set [] \<and> matches r (d # s)" by simp
      then show ?thesis by blast
    next
      case 2
      then obtain x s' where "s = x @ s'" "CHR ''/'' \<notin> set x" "matches r s'" using Cons.IH by blast
      then have "d # s = (d # x) @ s' \<and> CHR ''/'' \<notin> set (d # x) \<and> matches r s'" using 2(1) by simp
      then show ?thesis by blast
    qed
  next
    assume "\<exists>x s'. d # s = x @ s' \<and> CHR ''/'' \<notin> set x \<and> matches r s'"
    then obtain x s' where x: "d # s = x @ s'" "CHR ''/'' \<notin> set x" "matches r s'" by blast
    show "matches ((NotSlash, Star) # r) (d # s)"
    proof (cases x)
      case Nil
      then have "matches r (d # s)" using x(1,3) by simp
      then show ?thesis by simp
    next
      case (Cons e x')
      then have "d = e" "s = x' @ s'" "CHR ''/'' \<notin> set x'" "d \<noteq> CHR ''/''" using x by auto
      then show ?thesis using Cons.IH x(3) by auto
    qed
  qed
qed

lemma matches_plus:
  "matches ((NotSlash, Plus) # r) s \<longleftrightarrow>
     (\<exists>x s'. s = x @ s' \<and> x \<noteq> [] \<and> CHR ''/'' \<notin> set x \<and> matches r s')"
proof (cases s)
  case Nil
  then show ?thesis by simp
next
  case (Cons d s0)
  have "matches ((NotSlash, Plus) # r) s \<longleftrightarrow>
      d \<noteq> CHR ''/'' \<and> (\<exists>x s'. s0 = x @ s' \<and> CHR ''/'' \<notin> set x \<and> matches r s')"
    using Cons matches_star [of r s0] by simp
  also have "\<dots> \<longleftrightarrow> (\<exists>x s'. s = x @ s' \<and> x \<noteq> [] \<and> CHR ''/'' \<notin> set x \<and> matches r s')"
  proof
    assume "d \<noteq> CHR ''/'' \<and> (\<exists>x s'. s0 = x @ s' \<and> CHR ''/'' \<notin> set x \<and> matches r s')"
    then obtain x s' where "d \<noteq> CHR ''/''" "s0 = x @ s'" "CHR ''/'' \<notin> set x" "matches r s'" by blast
    then have "s = (d # x) @ s' \<and> d # x \<noteq> [] \<and> CHR ''/'' \<notin> set (d # x) \<and> matches r s'"
      using Cons by simp
    then show "\<exists>x s'. s = x @ s' \<and> x \<noteq> [] \<and> CHR ''/'' \<notin> set x \<and> matches r s'" by blast
  next
    assume "\<exists>x s'. s = x @ s' \<and> x \<noteq> [] \<and> CHR ''/'' \<notin> set x \<and> matches r s'"
    then obtain x s' where x: "s = x @ s'" "x \<noteq> []" "CHR ''/'' \<notin> set x" "matches r s'" by blast
    then obtain e x' where "x = e # x'" by (cases x) auto
    then have "d \<noteq> CHR ''/'' \<and> s0 = x' @ s' \<and> CHR ''/'' \<notin> set x' \<and> matches r s'"
      using x Cons by auto
    then show "d \<noteq> CHR ''/'' \<and> (\<exists>x s'. s0 = x @ s' \<and> CHR ''/'' \<notin> set x \<and> matches r s')" by blast
  qed
  finally show ?thesis .
qed

lemma matches_segment:
  "matches (seg_items sg @ r) u \<longleftrightarrow>
     (\<exists>x u'. u = CHR ''/'' # x @ u' \<and> seg_matches sg x \<and> matches r u')"
proof (cases sg)
  case (Param n)
  have "matches (seg_items sg @ r) u \<longleftrightarrow>
      (\<exists>u1. u = CHR ''/'' # u1 \<and> matches ((NotSlash, Plus) # r) u1)"
    using Param matches_slash by simp
  then show ?thesis using Param matches_plus by auto
next
  case (Literal t)
  have "matches (seg_items sg @ r) u \<longleftrightarrow>
      (\<exists>u1. u = CHR ''/'' # u1 \<and> matches (map (\<lambda>c. (Lit c, Once)) t @ r) u1)"
    using Literal matches_slash by simp
  then show ?thesis using Literal matches_literal by auto
qed

lemma matches_segments:
  "matches (concat (map seg_items segs)) u \<longleftrightarrow>
     (\<exists>us. u = concat (map ((#) (CHR ''/'')) us) \<and> list_all2 seg_matches segs us)"
proof (induction segs arbitrary: u)
  case Nil
  then show ?case by auto
next
  case (Cons sg segs)
  have "matches (concat (map seg_items (sg # segs))) u \<longleftrightarrow>
      (\<exists>x u'. u = CHR ''/'' # x @ u' \<and> seg_matches sg x \<and> matches (concat (map seg_items segs)) u')"
    using matches_segment [of sg "concat (map seg_items segs)" u] by simp
  also have "\<dots> \<longleftrightarrow> (\<exists>x us'. u = CHR ''/'' # x @ concat (map ((#) (CHR ''/'')) us')
      \<and> seg_matches sg x \<and> list_all2 seg_matches segs us')"
    using Cons.IH by blast
  also have "\<dots> \<longleftrightarrow> (\<exists>us. u = concat (map ((#) (CHR ''/'')) us) \<and> list_all2 seg_matches (sg # segs) us)"
  proof
    assume "\<exists>x us'. u = CHR ''/'' # x @ concat (map ((#) (CHR ''/'')) us')
      \<and> seg_matches sg x \<and> list_all2 seg_matches segs us'"
    then obtain x us' where "u = CHR ''/'' # x @ concat (map ((#) (CHR ''/'')) us')"
      "seg_matches sg x" "list_all2 seg_matches segs us'" by blast
    then have "u = concat (map ((#) (CHR ''/'')) (x # us')) \<and> list_all2 seg_matches (sg # segs) (x # us')"
      by simp
    then show "\<exists>us. u = concat (map ((#) (CHR ''/'')) us) \<and> list_all2 seg_matches (sg # segs) us"
      by blast
  next
    assume "\<exists>us. u = concat (map ((#) (CHR ''/'')) us) \<and> list_all2 seg_matches (sg # segs) us"
    then obtain us where us: "u = concat (map ((#) (CHR ''/'')) us)"
      "list_all2 seg_matches (sg # segs) us" by blast
    then obtain x us' where "us = x # us'" "seg_matches sg x" "list_all2 seg_matches segs us'"
      by (auto simp: list_all2_Cons1)
    then show "\<exists>x us'. u = CHR ''/'' # x @ concat (map ((#) (CHR ''/'')) us')
      \<and> seg_matches sg x \<and> list_all2 seg_matches segs us'" using us(1) by auto
  qed
  finally show ?case .
qed

lemma regexp_new_anchored: "regexp_new (''^'' @ body @ ''$'') = parse_items body"
  by (simp add: regexp_new_def)

lemma simple_template_compiles:
  assumes "list_all valid_segment segs"
  shows "\<exists>re. regexp_new (''^'' @ replace_params (template_path segs) @ ''$'') = Some re
           \<and> (\<forall>u. matches re u \<longleftrightarrow> (\<exists>us. u = join_path us \<and> list_all2 seg_matches segs us))"
proof (cases "segs = []")
  case True
  have "regexp_new (''^'' @ replace_params (template_path segs) @ ''$'') =
      Some [(Lit (CHR ''/''), Once)]"
    using True by (simp add: template_path_def join_path_def regexp_new_def syntax_chars_def)
  moreover have "matches [(Lit (CHR ''/''), Once)] u \<longleftrightarrow>
      (\<exists>us. u = join_path us \<and> list_all2 seg_matches segs us)" for u
    using True matches_slash [of "[]" u] by (auto simp: join_path_def)
  ultimately show ?thesis by blast
next
  case False
  have v: "\<forall>sg\<in>set segs. valid_segment sg" using assms by (simp add: list_all_iff)
  have tp: "template_path segs = concat (map (\<lambda>sg. CHR ''/'' # render_segment sg) segs)"
    using False by (simp add: template_path_def join_path_def comp_def)
  have "regexp_new (''^'' @ replace_params (template_path segs) @ ''$'') =
      Some (concat (map seg_items segs))"
    unfolding regexp_new_anchored tp replace_params_segments [OF v] by (rule parse_segments [OF v])
  moreover have "matches (concat (map seg_items segs)) u \<longleftrightarrow>
      (\<exists>us. u = join_path us \<and> list_all2 seg_matches segs us)" for u
  proof -
    have "list_all2 seg_matches segs us \<Longrightarrow> join_path us = concat (map ((#) (CHR ''/'')) us)" for us
      using False by (auto simp: join_path_def)
    then show ?thesis unfolding matches_segments by metis
  qed
  ultimately show ?thesis by blast
qed

text \<open>The segments of a path put together from segments.\<close>

lemma split_on_free: "d \<notin> set x \<Longrightarrow> split_on d x = [x]"
  by (induction x) auto

lemma split_on_append_free: "d \<notin> set x \<Longrightarrow> split_on d (x @ d # rest) = x # split_on d rest"
  by (induction x) auto

lemma split_on_joined:
  "d \<notin> set x \<Longrightarrow> \<forall>y\<in>set us. d \<notin> set y \<Longrightarrow>
     split_on d (x @ concat (map ((#) d) us)) = x # us"
proof (induction us arbitrary: x)
  case Nil
  then show ?case by (simp add: split_on_free)
next
  case (Cons y ys)
  then have "split_on d (y @ concat (map ((#) d) ys)) = y # ys" by simp
  then show ?case using Cons.prems(1) by (simp add: split_on_append_free)
qed

lemma segments_join_path:
  assumes "\<forall>x\<in>set us. x \<noteq> [] \<and> CHR ''/'' \<notin> set x"
  shows "segments (join_path us) = us"
proof (cases "us = []")
  case True
  then show ?thesis by (simp add: join_path_def segments_def)
next
  case False
  have "split_on (CHR ''/'') ([] @ concat (map ((#) (CHR ''/'')) us)) = [] # us"
    using assms by (intro split_on_joined) auto
  then show ?thesis using False assms by (simp add: join_path_def segments_def filter_id_conv)
qed

lemma seg_matches_segment:
  assumes "valid_segment sg" "seg_matches sg x"
  shows "x \<noteq> [] \<and> CHR ''/'' \<notin> set x"
proof (cases sg)
  case (Param n)
  then show ?thesis using assms by simp
next
  case (Literal t)
  then have t: "t \<noteq> []" "CHR ''/'' \<notin> set t" "map upper x = map upper t"
    using assms by (auto simp: list_all_iff)
  have "x \<noteq> []" using t(1,3) by auto
  moreover have "CHR ''/'' \<notin> set x"
  proof
    assume "CHR ''/'' \<in> set x"
    then have "upper (CHR ''/'') \<in> set (map upper x)" by force
    then have "CHR ''/'' \<in> set (map upper t)" using t(3) by simp
    then show False using t(2) by auto
  qed
  ultimately show ?thesis by blast
qed

lemma render_segment_segment:
  "valid_segment sg \<Longrightarrow> render_segment sg \<noteq> [] \<and> CHR ''/'' \<notin> set (render_segment sg)"
  using alpha_not_special by (cases sg) (auto simp: list_all_iff)

lemma simple_template_count:
  assumes "list_all valid_segment segs" "list_all2 seg_matches segs us"
  shows "length (segments (join_path us)) = length (segments (template_path segs))"
proof -
  have "\<forall>x\<in>set us. x \<noteq> [] \<and> CHR ''/'' \<notin> set x"
  proof
    fix x assume "x \<in> set us"
    then obtain i where i: "i < length us" "us ! i = x" by (auto simp: in_set_conv_nth)
    then have "seg_matches (segs ! i) x" "valid_segment (segs ! i)"
      using assms by (auto simp: list_all2_conv_all_nth list_all_length)
    then show "x \<noteq> [] \<and> CHR ''/'' \<notin> set x" using seg_matches_segment by blast
  qed
  then have a: "segments (join_path us) = us" by (rule segments_join_path)
  have "\<forall>x\<in>set (map render_segment segs). x \<noteq> [] \<and> CHR ''/'' \<notin> set x"
    using assms(1) render_segment_segment by (auto simp: list_all_iff)
  then have b: "segments (template_path segs) = map render_segment segs"
    unfolding template_path_def by (rule segments_join_path)
  show ?thesis using a b list_all2_lengthD [OF assms(2)] by simp
qed

lemma add_simple_template:
  assumes "list_all valid_segment segs"
    and "normalizePath h (options s) p True = template_path segs"
  shows "\<exists>re. add h p s =
            Some (s\<lparr>routes := routes s @
                     [\<lparr>path = template_path segs, regex = re,
                       query = Map.empty, params = Map.empty\<rparr>]\<rparr>)
          \<and> (\<forall>u. regex_test re u \<longleftrightarrow>
                 (\<exists>us. u = join_path us \<and> list_all2 seg_matches segs us))"
proof -
  from simple_template_compiles [OF assms(1)] obtain re where
    re: "regexp_new (''^'' @ replace_params (template_path segs) @ ''$'') = Some re"
      "\<forall>u. matches re u \<longleftrightarrow> (\<exists>us. u = join_path us \<and> list_all2 seg_matches segs us)"
    by blast
  have "add h p s =
      Some (s\<lparr>routes := routes s @
               [\<lparr>path = template_path segs, regex = re, query = Map.empty, params = Map.empty\<rparr>]\<rparr>)"
    unfolding add_def Let_def assms(2) re(1) by simp
  then show ?thesis using re(2) by (auto simp: regex_test_def)
qed

text \<open>
  C6 (amended). For a template whose normalised form is made of segments that are either
  \<open>:\<close> followed by one or more letters or literals free of \<open>/\<close>, \<open>:\<close> and syntax
  characters, \<open>add\<close> registers a route whose pattern matches a string exactly when the
  string is a path with as many segments as the template, each placeholder standing for
  one non-empty segment without a slash and each literal for itself up to the case of
  letters. The pattern is anchored: it matches whole strings only.
\<close>

theorem add_compiles_simple_template:
  assumes "list_all valid_segment segs"
    and "normalizePath h (options s) p True = template_path segs"
  shows "\<exists>re. add h p s =
            Some (s\<lparr>routes := routes s @
                     [\<lparr>path = template_path segs, regex = re,
                       query = Map.empty, params = Map.empty\<rparr>]\<rparr>)
          \<and> (\<forall>u. regex_test re u \<longleftrightarrow>
                 (\<exists>us. u = join_path us \<and> list_all2 seg_matches segs us))"
  using assms by (rule add_simple_template)

theorem add_compiles_simple_template_witness:
  "list_all valid_segment [Literal ''users'', Param ''id'']
   \<and> normalizePath browser (options (initial True ())) ''/users/:id'' True =
       template_path [Literal ''users'', Param ''id'']
   \<and> add browser ''/users/:id'' (initial True ()) \<noteq> None
   \<and> regex_test (regex (last (routes (the (add browser ''/users/:id'' (initial True ()))))))
        ''/USERS/42''"
proof -
  have a: "list_all valid_segment [Literal ''users'', Param ''id'']"
    by (simp add: is_alpha_def lower_letters_def upper_letters_def syntax_chars_def)
  have b: "normalizePath browser (options (initial True ())) ''/users/:id'' True =
       template_path [Literal ''users'', Param ''id'']"
    by (simp add: eval_defs template_path_def join_path_def)
  from add_compiles_simple_template [OF a b] obtain re where
    re: "add browser ''/users/:id'' (initial True ()) =
            Some ((initial True ())\<lparr>routes := routes (initial True ()) @
                     [\<lparr>path = template_path [Literal ''users'', Param ''id''], regex = re,
                       query = Map.empty, params = Map.empty\<rparr>]\<rparr>)"
      "\<forall>u. regex_test re u \<longleftrightarrow>
         (\<exists>us. u = join_path us \<and> list_all2 seg_matches [Literal ''users'', Param ''id''] us)"
    by blast
  have "''/USERS/42'' = join_path [''USERS'', ''42'']
      \<and> list_all2 seg_matches [Literal ''users'', Param ''id''] [''USERS'', ''42'']"
    by (simp add: join_path_def upper_def lower_letters_def upper_letters_def)
  then have "regex_test re ''/USERS/42''" using re(2) by blast
  moreover have "regex (last (routes (the (add browser ''/users/:id'' (initial True ()))))) = re"
    unfolding re(1) by simp
  ultimately show ?thesis using a b re(1) by simp
qed

text \<open>
  C6 as stated fails. The segment \<^verbatim>\<open>:id2\<close> begins with \<open>:\<close>, but only \<^verbatim>\<open>:id\<close> becomes a
  capture and the \<open>2\<close> stays: the one-segment path \<^verbatim>\<open>/7\<close> is not matched. The literal
  segment \<^verbatim>\<open>a.b\<close> is not taken literally: \<^verbatim>\<open>/axb\<close> is matched.
\<close>

theorem add_pattern_not_per_segment:
  "regex (last (routes (the (add browser ''/:id2'' (initial True ()))))) =
       [(Lit (CHR ''/''), Once), (NotSlash, Plus), (Lit (CHR ''2''), Once)]
   \<and> \<not> regex_test (regex (last (routes (the (add browser ''/:id2'' (initial True ())))))) ''/7''
   \<and> regex (last (routes (the (add browser ''/a.b'' (initial True ()))))) =
       [(Lit (CHR ''/''), Once), (Lit (CHR ''a''), Once), (Dot, Once), (Lit (CHR ''b''), Once)]
   \<and> regex_test (regex (last (routes (the (add browser ''/a.b'' (initial True ())))))) ''/axb''"
  by (simp add: eval_defs)

section \<open>Segment counts\<close>

lemma split_on_hd: "hd (split_on d s) \<noteq> [] \<longleftrightarrow> s \<noteq> [] \<and> hd s \<noteq> d"
  by (cases s) (auto split: list.splits)

lemma count_segs_flag:
  "count_segs False s = count_segs True s + (if s \<noteq> [] \<and> hd s \<noteq> CHR ''/'' then 1 else 0)"
  by (cases s) simp_all

lemma segments_count: "length (segments s) = count_segs False s"
proof (induction s)
  case Nil
  show ?case by (simp add: segments_def)
next
  case (Cons c cs)
  show ?case
  proof (cases "c = CHR ''/''")
    case True
    then show ?thesis using Cons.IH by (simp add: segments_def)
  next
    case False
    obtain x xs where x: "split_on (CHR ''/'') cs = x # xs"
      using split_on_not_Nil [of "CHR ''/''" cs] by (cases "split_on (CHR ''/'') cs") auto
    have hx: "x \<noteq> [] \<longleftrightarrow> cs \<noteq> [] \<and> hd cs \<noteq> CHR ''/''"
      using split_on_hd [of "CHR ''/''" cs] x by simp
    have "count_segs False cs = (if x \<noteq> [] then 1 else 0) + length (filter (\<lambda>x. x \<noteq> []) xs)"
      using Cons.IH x by (auto simp: segments_def split: if_splits)
    then have "length (filter (\<lambda>x. x \<noteq> []) xs) = count_segs True cs"
      using count_segs_flag [of cs] hx by (simp split: if_splits)
    then show ?thesis using False x by (simp add: segments_def)
  qed
qed

lemma count_segs_word:
  "x \<noteq> [] \<Longrightarrow> CHR ''/'' \<notin> set x \<Longrightarrow>
     count_segs b (x @ r) = (if b then 0 else 1) + count_segs True r"
proof (induction x arbitrary: b)
  case Nil
  then show ?case by simp
next
  case (Cons c x)
  show ?case
  proof (cases "x = []")
    case True
    then show ?thesis using Cons.prems by simp
  next
    case False
    then have "count_segs True (x @ r) = count_segs True r" using Cons by simp
    then show ?thesis using Cons.prems by auto
  qed
qed

lemma replace_params_head:
  assumes "list_all (\<lambda>c. c \<notin> set syntax_chars) r"
  shows "replace_params r = []
       \<or> (hd (replace_params r) \<noteq> CHR ''*'' \<and> hd (replace_params r) \<noteq> CHR ''+'')"
proof (cases r)
  case Nil
  then show ?thesis by simp
next
  case (Cons c cs)
  then have "c \<notin> set syntax_chars" using assms by simp
  then have "c \<noteq> CHR ''*''" "c \<noteq> CHR ''+''" by (auto simp: syntax_chars_def)
  then show ?thesis using Cons by simp
qed

lemma matches_char:
  "matches ((Lit c, Once) # r) u \<longleftrightarrow> (\<exists>d u'. u = d # u' \<and> upper c = upper d \<and> matches r u')"
  by (cases u) auto

text \<open>
  A template without syntax characters compiles, and the strings its pattern matches have
  their slashes where the template has them, with something non-empty and free of slashes
  for each placeholder and one character other than a slash for each other character.
\<close>

lemma plain_template_compiles:
  "list_all (\<lambda>c. c \<notin> set syntax_chars) p \<Longrightarrow>
     \<exists>re. parse_items (replace_params p) = Some re
        \<and> (\<forall>u b. matches re u \<longrightarrow> count_segs b u = count_segs b p)"
proof (induction p rule: replace_params.induct)
  case 1
  have "parse_items (replace_params []) = Some []
        \<and> (\<forall>u b. matches [] u \<longrightarrow> count_segs b u = count_segs b [])" by simp
  then show ?case by blast
next
  case (2 c cs)
  have plain_c: "c \<notin> set syntax_chars" and plain_cs: "list_all (\<lambda>c. c \<notin> set syntax_chars) cs"
    using "2.prems" by simp_all
  show ?case
  proof (cases "c = CHR '':'' \<and> takeWhile is_alpha cs \<noteq> []")
    case True
    let ?n = "takeWhile is_alpha cs"
    let ?rest = "dropWhile is_alpha cs"
    have plain_rest: "list_all (\<lambda>c. c \<notin> set syntax_chars) ?rest"
      using plain_cs by (auto simp: list_all_iff dest: set_dropWhileD)
    from "2.IH"(1) [OF True plain_rest] obtain re where
      re: "parse_items (replace_params ?rest) = Some re"
        "\<forall>u b. matches re u \<longrightarrow> count_segs b u = count_segs b ?rest" by blast
    have rp: "replace_params (c # cs) = ''([^/]+)'' @ replace_params ?rest"
      using True by (subst replace_params.simps) simp
    have pi: "parse_items (replace_params (c # cs)) = Some ((NotSlash, Plus) # re)"
      unfolding rp using parse_group [OF replace_params_head [OF plain_rest]] re(1) by simp
    have word: "c # ?n \<noteq> []" "CHR ''/'' \<notin> set (c # ?n)"
      using True by (auto dest: set_takeWhileD)
    have tpl: "count_segs b (c # cs) = (if b then 0 else 1) + count_segs True ?rest" for b
    proof -
      have "c # cs = (c # ?n) @ ?rest" by simp
      then show ?thesis using count_segs_word [OF word, of b ?rest] by simp
    qed
    have "count_segs b u = count_segs b (c # cs)" if m: "matches ((NotSlash, Plus) # re) u" for u b
    proof -
      from m obtain x u' where x: "u = x @ u'" "x \<noteq> []" "CHR ''/'' \<notin> set x" "matches re u'"
        unfolding matches_plus by blast
      have "count_segs b u = (if b then 0 else 1) + count_segs True u'"
        unfolding x(1) using x(2,3) by (rule count_segs_word)
      also have "count_segs True u' = count_segs True ?rest" using re(2) x(4) by blast
      finally show ?thesis using tpl [of b] by simp
    qed
    then show ?thesis using pi by blast
  next
    case False
    from "2.IH"(2) [OF False plain_cs] obtain re where
      re: "parse_items (replace_params cs) = Some re"
        "\<forall>u b. matches re u \<longrightarrow> count_segs b u = count_segs b cs" by blast
    have rp: "replace_params (c # cs) = c # replace_params cs"
      using False by (subst replace_params.simps) simp
    have pi: "parse_items (replace_params (c # cs)) = Some ((Lit c, Once) # re)"
      unfolding rp using parse_char [OF plain_c replace_params_head [OF plain_cs]] re(1) by simp
    have "count_segs b u = count_segs b (c # cs)" if m: "matches ((Lit c, Once) # re) u" for u b
    proof -
      from m obtain d u' where d: "u = d # u'" "upper c = upper d" "matches re u'"
        unfolding matches_char by blast
      have sl: "d = CHR ''/'' \<longleftrightarrow> c = CHR ''/''" using d(2) by (metis upper_slash)
      have "count_segs b' u' = count_segs b' cs" for b' using re(2) d(3) by blast
      then show ?thesis unfolding d(1) using sl by simp
    qed
    then show ?thesis using pi by blast
  qed
qed

lemma add_plain_template:
  assumes "list_all (\<lambda>c. c \<notin> set syntax_chars) (normalizePath h (options s) p True)"
  shows "\<exists>re. add h p s =
            Some (s\<lparr>routes := routes s @
                     [\<lparr>path = normalizePath h (options s) p True, regex = re,
                       query = Map.empty, params = Map.empty\<rparr>]\<rparr>)
          \<and> (\<forall>url. regex_test re url \<longrightarrow>
                 length (segments url) = length (segments (normalizePath h (options s) p True)))"
proof -
  from plain_template_compiles [OF assms] obtain re where
    re: "parse_items (replace_params (normalizePath h (options s) p True)) = Some re"
      "\<forall>u b. matches re u \<longrightarrow> count_segs b u = count_segs b (normalizePath h (options s) p True)"
    by blast
  have "add h p s =
      Some (s\<lparr>routes := routes s @
               [\<lparr>path = normalizePath h (options s) p True, regex = re,
                 query = Map.empty, params = Map.empty\<rparr>]\<rparr>)"
    unfolding add_def Let_def regexp_new_anchored re(1) by simp
  moreover have "\<forall>url. regex_test re url \<longrightarrow>
      length (segments url) = length (segments (normalizePath h (options s) p True))"
    using re(2) by (simp add: regex_test_def segments_count)
  ultimately show ?thesis by blast
qed

text \<open>
  C7 (amended). A template whose normalised form holds no syntax character of the pattern
  language is registered by \<open>add\<close>, and the pattern of the route matches no string with
  another number of segments than the normalised template has; in particular not the
  normalised path of a location with another number of segments. So \<^verbatim>\<open>/a/:x/b/:y\<close> does not
  match \<^verbatim>\<open>/a/1/b\<close>.
\<close>

theorem plain_template_same_segment_count:
  assumes "list_all (\<lambda>c. c \<notin> set syntax_chars) (normalizePath h (options s) p True)"
  shows "\<exists>s'. add h p s = Some s'
           \<and> path (last (routes s')) = normalizePath h (options s) p True
           \<and> (\<forall>url. length (segments url) \<noteq> length (segments (path (last (routes s'))))
                 \<longrightarrow> \<not> regex_test (regex (last (routes s'))) url)"
proof -
  from add_plain_template [OF assms] obtain re where
    re: "add h p s =
            Some (s\<lparr>routes := routes s @
                     [\<lparr>path = normalizePath h (options s) p True, regex = re,
                       query = Map.empty, params = Map.empty\<rparr>]\<rparr>)"
      "\<forall>url. regex_test re url \<longrightarrow>
          length (segments url) = length (segments (normalizePath h (options s) p True))"
    by blast
  let ?s' = "s\<lparr>routes := routes s @
                     [\<lparr>path = normalizePath h (options s) p True, regex = re,
                       query = Map.empty, params = Map.empty\<rparr>]\<rparr>"
  have "add h p s = Some ?s'
      \<and> path (last (routes ?s')) = normalizePath h (options s) p True
      \<and> (\<forall>url. length (segments url) \<noteq> length (segments (path (last (routes ?s'))))
             \<longrightarrow> \<not> regex_test (regex (last (routes ?s'))) url)"
    using re by auto
  then show ?thesis by blast
qed

theorem plain_template_same_segment_count_witness:
  "list_all (\<lambda>c. c \<notin> set syntax_chars)
      (normalizePath browser (options (initial True ())) ''/a/:x/b/:y'' True)
   \<and> add browser ''/a/:x/b/:y'' (initial True ()) \<noteq> None
   \<and> path (last (routes (the (add browser ''/a/:x/b/:y'' (initial True ()))))) = ''/a/:x/b/:y''
   \<and> length (segments (normalizePath browser (options (initial True ())) ''/a/1/b'' True)) = 3
   \<and> length (segments (path (last (routes (the (add browser ''/a/:x/b/:y'' (initial True ()))))))) = 4
   \<and> \<not> regex_test (regex (last (routes (the (add browser ''/a/:x/b/:y'' (initial True ()))))))
         (normalizePath browser (options (initial True ())) ''/a/1/b'' True)
   \<and> list_all (\<lambda>c. c \<notin> set syntax_chars)
      (normalizePath browser (options (initial True ())) ''/:id2/x'' True)
   \<and> length (segments (path (last (routes (the (add browser ''/:id2/x'' (initial True ()))))))) = 2
   \<and> \<not> regex_test (regex (last (routes (the (add browser ''/:id2/x'' (initial True ()))))))
         ''/72/x/y''"
proof -
  let ?o = "options (initial True ())"
  have n: "normalizePath browser ?o ''/a/:x/b/:y'' True = ''/a/:x/b/:y''"
    by (simp add: eval_defs)
  have u: "normalizePath browser ?o ''/a/1/b'' True = ''/a/1/b''"
    by (simp add: eval_defs)
  have n2: "normalizePath browser ?o ''/:id2/x'' True = ''/:id2/x''"
    by (simp add: eval_defs)
  have a: "list_all (\<lambda>c. c \<notin> set syntax_chars) (normalizePath browser ?o ''/a/:x/b/:y'' True)"
    unfolding n by (simp add: syntax_chars_def)
  have a2: "list_all (\<lambda>c. c \<notin> set syntax_chars) (normalizePath browser ?o ''/:id2/x'' True)"
    unfolding n2 by (simp add: syntax_chars_def)
  have c3: "length (segments ''/a/1/b'') = 3" by (simp add: segments_def)
  have c4: "length (segments ''/a/:x/b/:y'') = 4" by (simp add: segments_def)
  have d2: "length (segments ''/:id2/x'') = 2" by (simp add: segments_def)
  have d3: "length (segments ''/72/x/y'') = 3" by (simp add: segments_def)
  from plain_template_same_segment_count [OF a] obtain s' where
    s': "add browser ''/a/:x/b/:y'' (initial True ()) = Some s'"
      "path (last (routes s')) = ''/a/:x/b/:y''"
      "\<forall>url. length (segments url) \<noteq> length (segments (path (last (routes s'))))
             \<longrightarrow> \<not> regex_test (regex (last (routes s'))) url"
    unfolding n by blast
  have r1: "\<not> regex_test (regex (last (routes s'))) ''/a/1/b''"
    using s'(2,3) c3 c4 by simp
  from plain_template_same_segment_count [OF a2] obtain s2 where
    s2: "add browser ''/:id2/x'' (initial True ()) = Some s2"
      "path (last (routes s2)) = ''/:id2/x''"
      "\<forall>url. length (segments url) \<noteq> length (segments (path (last (routes s2))))
             \<longrightarrow> \<not> regex_test (regex (last (routes s2))) url"
    unfolding n2 by blast
  have r2: "\<not> regex_test (regex (last (routes s2))) ''/72/x/y''"
    using s2(2,3) d2 d3 by simp
  show ?thesis using a a2 s' s2 r1 r2 c3 c4 d2 u by simp
qed

text \<open>
  C7 as stated fails for a template with syntax characters: \<^verbatim>\<open>/a/.*\<close> has two segments and
  matches \<^verbatim>\<open>/a/b/c\<close>, which has three.
\<close>

theorem pattern_matches_other_segment_count:
  "length (segments (path (last (routes (the (add browser ''/a/.*'' (initial True ()))))))) = 2
   \<and> length (segments (normalizePath browser
         (options (the (add browser ''/a/.*'' (initial True ())))) ''/a/b/c'' True)) = 3
   \<and> regex_test (regex (last (routes (the (add browser ''/a/.*'' (initial True ()))))))
        (normalizePath browser
           (options (the (add browser ''/a/.*'' (initial True ())))) ''/a/b/c'' True)
   \<and> match browser (the (add browser ''/a/.*'' (initial True ()))) ''/a/b/c'' = Some 0"
  by (simp add: eval_defs)

end
